theory Spec2Isabelle
  imports Main "HOL-Library.Word" "HOL-Library.Multiset"
begin

section \<open>Wall clock and 64-bit arithmetic\<close>

text \<open>
  Go's \<open>int64\<close> values are modelled as \<open>int\<close>; the one place of the source where an
  \<open>int64\<close> product can leave the range (\<open>time.Duration(ttlSeconds) * time.Second\<close>)
  has the two's-complement wrap-around written out with \<open>wrap64\<close>.
  An instant (\<open>time.Time\<close>) is the number of nanoseconds since the Unix epoch.
\<close>

type_synonym instant = int

definition wrap64 :: "int \<Rightarrow> int" where
  "wrap64 x = (x + 2 ^ 63) mod 2 ^ 64 - 2 ^ 63"

definition Second :: int where
  "Second = 1000000000"

definition Millisecond :: int where
  "Millisecond = 1000000"

text \<open>\<open>t.Add(d)\<close>, \<open>t.Unix()\<close> (whole seconds, rounded down) and \<open>t.UnixNano()\<close>.\<close>

definition Add :: "instant \<Rightarrow> int \<Rightarrow> instant" where
  "Add t d = t + d"

definition Unix :: "instant \<Rightarrow> int" where
  "Unix t = t div Second"

definition UnixNano :: "instant \<Rightarrow> int" where
  "UnixNano t = t"

text \<open>Go's integer division truncates towards zero.\<close>

definition go_div :: "int \<Rightarrow> int \<Rightarrow> int" where
  "go_div a b = (if (a < 0) = (b < 0) then \<bar>a\<bar> div \<bar>b\<bar> else - (\<bar>a\<bar> div \<bar>b\<bar>))"

section \<open>Entry store (cmd/cache-node/main.go)\<close>

record 'v CacheItem =
  Value :: 'v
  Expiration :: int
  LastUpdated :: int

type_synonym 'v Cache = "string \<rightharpoonup> 'v CacheItem"

text \<open>Lines 42-45 of \<open>Cache.Set\<close>: the expiration computed from the TTL.\<close>

definition expiration_of :: "instant \<Rightarrow> int \<Rightarrow> int" where
  "expiration_of now ttlSeconds =
     (if ttlSeconds > 0 then Unix (Add now (wrap64 (ttlSeconds * Second))) else 0)"

text \<open>
  \<open>Cache.Set\<close>: every branch of the body of the \<open>for\<close> loop returns, so the loop runs once.
  The result is the returned flag and the store after the call.
\<close>

definition Cache_Set ::
  "'v Cache \<Rightarrow> instant \<Rightarrow> string \<Rightarrow> 'v \<Rightarrow> int \<Rightarrow> int \<Rightarrow> bool \<times> 'v Cache" where
  "Cache_Set c now key val ttlSeconds lastUpdated =
     (let item = \<lparr>Value = val, Expiration = expiration_of now ttlSeconds,
                  LastUpdated = lastUpdated\<rparr>
      in case c key of
           None \<Rightarrow> (True, c(key \<mapsto> item))
         | Some existing \<Rightarrow>
             if lastUpdated \<ge> LastUpdated existing then (True, c(key \<mapsto> item))
             else (False, c))"

text \<open>\<open>Cache.Get\<close>: \<open>None\<close> is the pair \<open>(nil, false)\<close>.\<close>

definition Cache_Get :: "'v Cache \<Rightarrow> instant \<Rightarrow> string \<Rightarrow> 'v option \<times> 'v Cache" where
  "Cache_Get c now key =
     (case c key of
        None \<Rightarrow> (None, c)
      | Some item \<Rightarrow>
          if Expiration item > 0 \<and> Unix now > Expiration item then (None, c(key := None))
          else (Some (Value item), c))"

definition Cache_Delete :: "'v Cache \<Rightarrow> string \<Rightarrow> 'v Cache" where
  "Cache_Delete c key = c(key := None)"

text \<open>A write as it reaches a store: payload, TTL, timestamp and the clock at arrival.\<close>

record 'v arrival =
  w_value :: 'v
  w_ttl :: int
  w_ts :: int
  w_now :: instant

definition put_write :: "string \<Rightarrow> 'v Cache \<Rightarrow> 'v arrival \<Rightarrow> 'v Cache" where
  "put_write key c w = snd (Cache_Set c (w_now w) key (w_value w) (w_ttl w) (w_ts w))"

definition puts :: "'v Cache \<Rightarrow> string \<Rightarrow> 'v arrival list \<Rightarrow> 'v Cache" where
  "puts c key ws = foldl (put_write key) c ws"

text \<open>The operations of a store, for runs that mix them.\<close>

datatype 'v store_op =
    Put string 'v int int instant
  | Get string instant
  | Del string

fun apply_op :: "'v Cache \<Rightarrow> 'v store_op \<Rightarrow> 'v Cache" where
  "apply_op c (Put key val ttl ts now) = snd (Cache_Set c now key val ttl ts)"
| "apply_op c (Get key now) = snd (Cache_Get c now key)"
| "apply_op c (Del key) = Cache_Delete c key"

definition run_ops :: "'v Cache \<Rightarrow> 'v store_op list \<Rightarrow> 'v Cache" where
  "run_ops c ops = foldl apply_op c ops"

text \<open>The timestamps resident under a key along a run, oldest first.\<close>

fun resident_trace :: "'v Cache \<Rightarrow> string \<Rightarrow> 'v store_op list \<Rightarrow> int option list" where
  "resident_trace c key [] = [map_option LastUpdated (c key)]"
| "resident_trace c key (x # xs) =
     map_option LastUpdated (c key) # resident_trace (apply_op c x) key xs"

section \<open>Hash ring (pkg/cluster/cluster.go)\<close>

text \<open>
  \<open>hashKey\<close> projects a SHA-1 digest (\<open>crypto/sha1\<close>, a library) to a \<open>uint32\<close>; the
  digest is not part of the repository, so the hash function is a parameter \<open>H\<close> of every
  ring operation. \<open>int(hashKey(s))\<close> is its unsigned value (Go's \<open>int\<close> has 64 bits).
\<close>

type_synonym hashfn = "string \<Rightarrow> 32 word"

record HashRing =
  replicas :: int
  nodes :: "int list"
  nodeMap :: "int \<rightharpoonup> string"

text \<open>Reading a Go map of strings: a missing key gives the empty string.\<close>

definition map_get :: "(int \<rightharpoonup> string) \<Rightarrow> int \<Rightarrow> string" where
  "map_get m h = (case m h of None \<Rightarrow> [] | Some s \<Rightarrow> s)"

definition NewHashRing :: "int \<Rightarrow> HashRing" where
  "NewHashRing n = \<lparr>replicas = n, nodes = [], nodeMap = Map.empty\<rparr>"

text \<open>\<open>%d\<close> of a non-negative integer, and \<open>fmt.Sprintf("%s#%d", nodeID, i)\<close>.\<close>

fun decimal :: "nat \<Rightarrow> string" where
  "decimal n =
     (if n < 10 then [''0123456789'' ! n]
      else decimal (n div 10) @ [''0123456789'' ! (n mod 10)])"

declare decimal.simps [simp del]

definition point_name :: "string \<Rightarrow> nat \<Rightarrow> string" where
  "point_name nodeID i = nodeID @ ''#'' @ decimal i"

text \<open>One iteration of the loop of \<open>AddNode\<close>, then the whole of it.\<close>

definition add_point :: "hashfn \<Rightarrow> string \<Rightarrow> nat \<Rightarrow> HashRing \<Rightarrow> HashRing" where
  "add_point H nodeID i h =
     (let hash = uint (H (point_name nodeID i))
      in h\<lparr>nodes := nodes h @ [hash], nodeMap := (nodeMap h)(hash \<mapsto> nodeID)\<rparr>)"

definition AddNode :: "hashfn \<Rightarrow> HashRing \<Rightarrow> string \<Rightarrow> HashRing" where
  "AddNode H h nodeID =
     (let h' = fold (add_point H nodeID) [0..<nat (replicas h)] h
      in h'\<lparr>nodes := sort (nodes h')\<rparr>)"

text \<open>
  \<open>RemoveNode\<close> filters \<open>nodes\<close> while it deletes from \<open>nodeMap\<close>, so each test reads
  the map as the earlier iterations left it.
\<close>

definition remove_step :: "string \<Rightarrow> int \<Rightarrow> int list \<times> (int \<rightharpoonup> string)
    \<Rightarrow> int list \<times> (int \<rightharpoonup> string)" where
  "remove_step nodeID hash st =
     (case st of (filtered, m) \<Rightarrow>
        if map_get m hash \<noteq> nodeID then (filtered @ [hash], m)
        else (filtered, m(hash := None)))"

definition RemoveNode :: "HashRing \<Rightarrow> string \<Rightarrow> HashRing" where
  "RemoveNode h nodeID =
     (case fold (remove_step nodeID) (nodes h) ([], nodeMap h) of
        (filtered, m) \<Rightarrow> h\<lparr>nodes := filtered, nodeMap := m\<rparr>)"

text \<open>The rings a process can hold: built from an empty one by adding and removing nodes.\<close>

inductive built :: "hashfn \<Rightarrow> HashRing \<Rightarrow> bool" for H :: hashfn where
  built_new: "built H (NewHashRing n)"
| built_add: "built H h \<Longrightarrow> built H (AddNode H h nodeID)"
| built_remove: "built H h \<Longrightarrow> built H (RemoveNode h nodeID)"

text \<open>The hashes of the virtual points that \<open>AddNode\<close> inserts for a node.\<close>

definition point_hashes :: "hashfn \<Rightarrow> HashRing \<Rightarrow> string \<Rightarrow> int list" where
  "point_hashes H h nodeID = map (\<lambda>i. uint (H (point_name nodeID i))) [0..<nat (replicas h)]"

text \<open>\<open>sort.Search\<close> of the Go library: binary search on \<open>[0, n)\<close>.\<close>

function Search_loop :: "(nat \<Rightarrow> bool) \<Rightarrow> nat \<Rightarrow> nat \<Rightarrow> nat" where
  "Search_loop f i j =
     (if i < j then
        (if \<not> f ((i + j) div 2) then Search_loop f ((i + j) div 2 + 1) j
         else Search_loop f i ((i + j) div 2))
      else i)"
  by pat_completeness auto
termination
  by (relation "measure (\<lambda>(f, i, j). j - i)") auto

declare Search_loop.simps [simp del]

definition Search :: "nat \<Rightarrow> (nat \<Rightarrow> bool) \<Rightarrow> nat" where
  "Search n f = Search_loop f 0 n"

text \<open>Lines 64-68 and 170-174: the index where a walk for \<open>key\<close> starts.\<close>

definition start_index :: "hashfn \<Rightarrow> HashRing \<Rightarrow> string \<Rightarrow> nat" where
  "start_index H h key =
     (let hash = uint (H key);
          idx = Search (length (nodes h)) (\<lambda>i. nodes h ! i \<ge> hash)
      in if idx = length (nodes h) then 0 else idx)"

definition GetNode :: "hashfn \<Rightarrow> HashRing \<Rightarrow> string \<Rightarrow> string" where
  "GetNode H h key =
     (if length (nodes h) = 0 then []
      else map_get (nodeMap h) (nodes h ! start_index H h key))"

text \<open>The \<open>for\<close> loop of \<open>GetReplicas\<close>; \<open>seen\<close> is the key set of the Go map.\<close>

function GetReplicas_loop ::
  "HashRing \<Rightarrow> nat \<Rightarrow> int \<Rightarrow> nat \<Rightarrow> string set \<Rightarrow> string list \<Rightarrow> string list" where
  "GetReplicas_loop h idx replicaCount i seen reps =
     (if int (length reps) < replicaCount \<and> i < length (nodes h) * 2 then
        (if map_get (nodeMap h) (nodes h ! ((idx + i) mod length (nodes h))) \<notin> seen then
           GetReplicas_loop h idx replicaCount (i + 1)
             (insert (map_get (nodeMap h) (nodes h ! ((idx + i) mod length (nodes h)))) seen)
             (reps @ [map_get (nodeMap h) (nodes h ! ((idx + i) mod length (nodes h)))])
         else GetReplicas_loop h idx replicaCount (i + 1) seen reps)
      else reps)"
  by pat_completeness auto
termination
  by (relation "measure (\<lambda>(h, idx, replicaCount, i, seen, reps). length (nodes h) * 2 - i)") auto

declare GetReplicas_loop.simps [simp del]

definition GetReplicas :: "hashfn \<Rightarrow> HashRing \<Rightarrow> string \<Rightarrow> int \<Rightarrow> string list" where
  "GetReplicas H h key replicaCount =
     (if length (nodes h) = 0 \<or> replicaCount \<le> 0 then []
      else GetReplicas_loop h (start_index H h key) replicaCount 0 {} [])"

text \<open>
  The walk as the specification words it: the node IDs met from the start index on, over
  \<open>2 * |points|\<close> points with wrap-around, each ID kept at its first occurrence only.
\<close>

definition walk :: "HashRing \<Rightarrow> nat \<Rightarrow> string list" where
  "walk h idx =
     map (\<lambda>i. map_get (nodeMap h) (nodes h ! ((idx + i) mod length (nodes h))))
       [0..<length (nodes h) * 2]"

definition append_unseen :: "string list \<Rightarrow> string \<Rightarrow> string list" where
  "append_unseen acc x = (if x \<in> set acc then acc else acc @ [x])"

definition first_seen :: "string list \<Rightarrow> string list" where
  "first_seen xs = foldl append_unseen [] xs"

definition owners :: "HashRing \<Rightarrow> string set" where
  "owners h = map_get (nodeMap h) ` set (nodes h)"

section \<open>Health tracker and cluster registry (pkg/cluster/cluster.go)\<close>

record Node =
  ID :: string
  Addr :: string

type_synonym NodeHealthTracker = "string \<rightharpoonup> bool"

definition NewNodeHealthTracker :: NodeHealthTracker where
  "NewNodeHealthTracker = Map.empty"

definition IsNodeHealthy :: "NodeHealthTracker \<Rightarrow> string \<Rightarrow> bool" where
  "IsNodeHealthy n nodeID = (case n nodeID of None \<Rightarrow> False | Some healthy \<Rightarrow> healthy)"

definition MarkNodeHealth :: "NodeHealthTracker \<Rightarrow> string \<Rightarrow> bool \<Rightarrow> NodeHealthTracker" where
  "MarkNodeHealth n nodeID healthy = n(nodeID \<mapsto> healthy)"

text \<open>The field \<open>HashRing\<close> of the Go struct is \<open>Ring\<close> here.\<close>

record Cluster =
  Nodes :: "string \<rightharpoonup> Node"
  Ring :: HashRing
  SelfID :: string
  Health :: "NodeHealthTracker option"

definition NewCluster :: "hashfn \<Rightarrow> string \<Rightarrow> string list \<Rightarrow> int \<Rightarrow> Cluster" where
  "NewCluster H selfID nodeAddrs n =
     (case fold (\<lambda>addr (ns, ring). (ns(addr \<mapsto> \<lparr>ID = addr, Addr = addr\<rparr>), AddNode H ring addr))
             nodeAddrs (Map.empty, NewHashRing n) of
        (ns, ring) \<Rightarrow> \<lparr>Nodes = ns, Ring = ring, SelfID = selfID, Health = None\<rparr>)"

definition GetResponsibleNodes :: "hashfn \<Rightarrow> Cluster \<Rightarrow> string \<Rightarrow> int \<Rightarrow> Node list" where
  "GetResponsibleNodes H c key replicaCount =
     List.map_filter (Nodes c) (GetReplicas H (Ring c) key replicaCount)"

section \<open>The write handler (cmd/cache-node/main.go)\<close>

text \<open>The decoded request; its fields \<open>Value\<close> and \<open>LastUpdated\<close> are \<open>Val\<close> and \<open>ReqLastUpdated\<close>.\<close>

record 'v SetReq =
  Key :: string
  Val :: 'v
  TTL :: int
  ReqLastUpdated :: int

text \<open>The request body: one that \<open>json.Decode\<close> rejects, or the decoded request.\<close>

datatype 'v SetBody = Undecodable | Decoded "'v SetReq"

datatype http_status =
    StatusNoContent
  | StatusBadRequest
  | StatusConflict
  | StatusServiceUnavailable

text \<open>
  What a call of the handler does: the status and text it writes, the requests it forwards
  to peers (in order), and the local store afterwards.
\<close>

record 'v SetOutcome =
  status :: http_status
  message :: string
  forwards :: "(Node \<times> 'v SetReq) list"
  cache_after :: "'v Cache"

text \<open>The test of lines 114, 157 and 203 on one node.\<close>

definition treated_healthy :: "Cluster \<Rightarrow> string \<Rightarrow> bool" where
  "treated_healthy clust nodeID =
     (case Health clust of None \<Rightarrow> True | Some tracker \<Rightarrow> IsNodeHealthy tracker nodeID)"

text \<open>The loop of lines 113-120: the healthy replicas, and whether this node is a replica.\<close>

fun scan_replicas :: "Cluster \<Rightarrow> string \<Rightarrow> Node list \<Rightarrow> bool \<Rightarrow> Node list \<Rightarrow> bool \<times> Node list" where
  "scan_replicas clust selfID [] isReplica healthyReplicas = (isReplica, healthyReplicas)"
| "scan_replicas clust selfID (node # rest) isReplica healthyReplicas =
     scan_replicas clust selfID rest
       (if ID node = selfID then True else isReplica)
       (if treated_healthy clust (ID node) then healthyReplicas @ [node] else healthyReplicas)"

text \<open>
  \<open>handleSet\<close>. The globals \<open>clust\<close>, \<open>selfID\<close> and \<open>replicaCount\<close> are arguments; \<open>now1\<close>
  is the clock read at line 108 and \<open>now2\<close> the clock read inside \<open>cache.Set\<close>.
\<close>

definition assign_timestamp :: "instant \<Rightarrow> 'v SetReq \<Rightarrow> 'v SetReq" where
  "assign_timestamp now1 req =
     (if ReqLastUpdated req = 0
      then req\<lparr>ReqLastUpdated := go_div (UnixNano now1) Millisecond\<rparr> else req)"

definition handleSet ::
  "hashfn \<Rightarrow> Cluster \<Rightarrow> string \<Rightarrow> int \<Rightarrow> 'v Cache \<Rightarrow> instant \<Rightarrow> instant \<Rightarrow> 'v SetBody
     \<Rightarrow> 'v SetOutcome" where
  "handleSet H clust selfID replicaCount cache now1 now2 body =
     (case body of
        Undecodable \<Rightarrow>
          \<lparr>status = StatusBadRequest, message = ''invalid request'', forwards = [],
           cache_after = cache\<rparr>
      | Decoded req0 \<Rightarrow>
          if Key req0 = [] then
            \<lparr>status = StatusBadRequest, message = ''key required'', forwards = [],
             cache_after = cache\<rparr>
          else
            let req = assign_timestamp now1 req0;
                rs = GetResponsibleNodes H clust (Key req) replicaCount
            in case scan_replicas clust selfID rs False [] of
                 (isReplica, healthyReplicas) \<Rightarrow>
                   if length healthyReplicas = 0 then
                     \<lparr>status = StatusServiceUnavailable, message = ''no healthy replicas'',
                      forwards = [], cache_after = cache\<rparr>
                   else if \<not> isReplica then
                     \<lparr>status = StatusNoContent, message = [],
                      forwards = map (\<lambda>node. (node, req))
                                   (filter (\<lambda>node. ID node \<noteq> selfID) healthyReplicas),
                      cache_after = cache\<rparr>
                   else
                     (case Cache_Set cache now2 (Key req) (Val req) (TTL req)
                             (ReqLastUpdated req) of
                        (updated, cache') \<Rightarrow>
                          if \<not> updated then
                            \<lparr>status = StatusConflict,
                             message = ''conflict: incoming update is older than current value'',
                             forwards = [], cache_after = cache'\<rparr>
                          else
                            \<lparr>status = StatusNoContent, message = [], forwards = [],
                             cache_after = cache'\<rparr>))"

section \<open>Derived notions used by the theorems\<close>

text \<open>What a reader can observe of a key: the value and its timestamp.\<close>

definition visible :: "'v Cache \<Rightarrow> string \<Rightarrow> ('v \<times> int) option" where
  "visible c key = map_option (\<lambda>e. (Value e, LastUpdated e)) (c key)"

text \<open>The last arrival among those that carry the greatest timestamp.\<close>

definition winner :: "'v arrival list \<Rightarrow> 'v arrival" where
  "winner ws = last (filter (\<lambda>w. w_ts w = Max (w_ts ` set ws)) ws)"

text \<open>Redelivering one write at each of the given clock readings.\<close>

definition replay :: "'v Cache \<Rightarrow> string \<Rightarrow> 'v \<Rightarrow> int \<Rightarrow> int \<Rightarrow> instant list \<Rightarrow> 'v Cache" where
  "replay c key v ttl ts clocks = foldl (\<lambda>c' now. snd (Cache_Set c' now key v ttl ts)) c clocks"

section \<open>Concrete inputs\<close>

definition ex_writes :: "string arrival list" where
  "ex_writes =
     [\<lparr>w_value = ''x'', w_ttl = 0, w_ts = 5, w_now = 0\<rparr>,
      \<lparr>w_value = ''y'', w_ttl = 0, w_ts = 9, w_now = 0\<rparr>,
      \<lparr>w_value = ''z'', w_ttl = 0, w_ts = 9, w_now = 0\<rparr>,
      \<lparr>w_value = ''q'', w_ttl = 0, w_ts = 3, w_now = 0\<rparr>]"

definition ex_ops :: "string store_op list" where
  "ex_ops = [Put ''k'' ''a'' 0 5 0, Put ''k'' ''b'' 0 3 0, Get ''k'' 0, Put ''k'' ''c'' 0 7 0]"

definition ex_reset_ops :: "string store_op list" where
  "ex_reset_ops = [Put ''k'' ''new'' 0 100 0, Del ''k'', Put ''k'' ''old'' 0 50 0]"

definition ex_store :: "string Cache" where
  "ex_store = [''k'' \<mapsto> \<lparr>Value = ''o'', Expiration = 0, LastUpdated = 1\<rparr>]"

text \<open>
  A stand-in for the digest (the sum of the bytes of the string), and the ring of two
  nodes \<open>a\<close> and \<open>b\<close> with two virtual points each, built as \<open>NewCluster\<close> builds it.
  The points \<open>a#1\<close> and \<open>b#0\<close> have the same hash under it.
\<close>

definition ex_hash :: hashfn where
  "ex_hash s = of_nat (sum_list (map of_char s))"

definition ex_ring :: HashRing where
  "ex_ring = AddNode ex_hash (AddNode ex_hash (NewHashRing 2) ''a'') ''b''"

text \<open>
  The cluster of \<open>NewCluster("a", ["a", "b", "c"], 2)\<close> after the health monitor has
  marked the three nodes healthy, and the cluster of the single node \<open>a\<close>. With two
  replicas per key, the key \<open>k\<close> belongs to \<open>a\<close> and \<open>b\<close>; node \<open>c\<close> only coordinates it.
\<close>

definition ex_tracker :: NodeHealthTracker where
  "ex_tracker =
     MarkNodeHealth (MarkNodeHealth (MarkNodeHealth NewNodeHealthTracker ''a'' True) ''b'' True)
       ''c'' True"

definition ex_cluster :: Cluster where
  "ex_cluster = (NewCluster ex_hash ''a'' [''a'', ''b'', ''c''] 2)\<lparr>Health := Some ex_tracker\<rparr>"

definition ex_single :: Cluster where
  "ex_single = NewCluster ex_hash ''a'' [''a''] 2"

definition ex_req :: "string SetReq" where
  "ex_req = \<lparr>Key = ''k'', Val = ''v'', TTL = 0, ReqLastUpdated = 5\<rparr>"

section \<open>Store: last-writer-wins admission\<close>

lemma Cache_Set_fresh:
  "c key = None \<Longrightarrow> Cache_Set c now key v ttl ts =
     (True, c(key \<mapsto> \<lparr>Value = v, Expiration = expiration_of now ttl, LastUpdated = ts\<rparr>))"
  by (simp add: Cache_Set_def)

lemma Cache_Set_resident:
  "c key = Some e \<Longrightarrow> Cache_Set c now key v ttl ts =
     (if LastUpdated e \<le> ts
      then (True, c(key \<mapsto> \<lparr>Value = v, Expiration = expiration_of now ttl, LastUpdated = ts\<rparr>))
      else (False, c))"
  by (simp add: Cache_Set_def)

lemma puts_snoc: "puts c key (ws @ [w]) = put_write key (puts c key ws) w"
  by (simp add: puts_def)

lemma puts_winner:
  "c key = None \<Longrightarrow> ws \<noteq> [] \<Longrightarrow>
     visible (puts c key ws) key = Some (w_value (winner ws), Max (w_ts ` set ws))"
proof (induction ws rule: rev_induct)
  case Nil
  then show ?case by simp
next
  case (snoc w ws)
  show ?case
  proof (cases "ws = []")
    case True
    with snoc.prems show ?thesis
      by (simp add: puts_def put_write_def Cache_Set_fresh visible_def winner_def)
  next
    case False
    with snoc have IH: "visible (puts c key ws) key = Some (w_value (winner ws), Max (w_ts ` set ws))"
      by simp
    then obtain e where e: "puts c key ws key = Some e" "Value e = w_value (winner ws)"
        "LastUpdated e = Max (w_ts ` set ws)"
      by (auto simp: visible_def)
    let ?M = "Max (w_ts ` set ws)"
    have fin: "finite (w_ts ` set ws)" "w_ts ` set ws \<noteq> {}" using False by auto
    have M': "Max (insert (w_ts w) (w_ts ` set ws)) = max (w_ts w) ?M"
      using fin by simp
    show ?thesis
    proof (cases "?M \<le> w_ts w")
      case True
      then have "winner (ws @ [w]) = w"
        by (simp add: winner_def M' max_def)
      with True e show ?thesis
        by (simp add: puts_snoc put_write_def Cache_Set_resident visible_def M' max_def)
    next
      case False
      then have lt: "w_ts w < ?M" by simp
      have "winner (ws @ [w]) = winner ws"
        using lt by (simp add: winner_def M' max_def)
      with lt e show ?thesis
        by (simp add: puts_snoc put_write_def Cache_Set_resident visible_def M' max_def)
    qed
  qed
qed

text \<open>
  Claim C2. A put on a key with no resident entry stores and returns stored (\<open>True\<close>);
  with a resident entry it stores and returns stored exactly when the incoming timestamp is
  at least the resident one, and otherwise returns rejected (\<open>False\<close>) and leaves the store
  as it was. Hence after any non-empty sequence of puts to one key, starting without a
  resident entry, the timestamp held is the maximum supplied and the value is the one of
  the last arrival that carried this maximum.
\<close>

theorem C2_put_last_writer_wins:
  "(c key = None \<longrightarrow>
      Cache_Set c now key v ttl ts =
        (True, c(key \<mapsto> \<lparr>Value = v, Expiration = expiration_of now ttl, LastUpdated = ts\<rparr>)))
   \<and> (c key = Some e \<longrightarrow>
        (fst (Cache_Set c now key v ttl ts) \<longleftrightarrow> ts \<ge> LastUpdated e)
        \<and> (ts \<ge> LastUpdated e \<longrightarrow>
             Cache_Set c now key v ttl ts =
               (True, c(key \<mapsto> \<lparr>Value = v, Expiration = expiration_of now ttl, LastUpdated = ts\<rparr>)))
        \<and> (\<not> ts \<ge> LastUpdated e \<longrightarrow> Cache_Set c now key v ttl ts = (False, c)))
   \<and> (c key = None \<and> ws \<noteq> [] \<longrightarrow>
        visible (puts c key ws) key = Some (w_value (winner ws), Max (w_ts ` set ws)))"
  using puts_winner [of c key ws]
  by (simp add: Cache_Set_fresh Cache_Set_resident)

theorem C2_put_last_writer_wins_witness:
  "Cache_Set (Map.empty :: string Cache) 0 ''a'' ''x'' 0 5 =
     (True, [''a'' \<mapsto> \<lparr>Value = ''x'', Expiration = expiration_of 0 0, LastUpdated = 5\<rparr>])
   \<and> \<not> fst (Cache_Set [''a'' \<mapsto> \<lparr>Value = ''x'', Expiration = 0, LastUpdated = 5\<rparr>] 0 ''a'' ''y'' 0 4)
   \<and> Cache_Set [''a'' \<mapsto> \<lparr>Value = ''x'', Expiration = 0, LastUpdated = 5\<rparr>] 0 ''a'' ''y'' 0 4
       = (False, [''a'' \<mapsto> \<lparr>Value = ''x'', Expiration = 0, LastUpdated = 5\<rparr>])
   \<and> visible (puts Map.empty ''a'' ex_writes) ''a'' = Some (''z'', 9)"
proof -
  have w: "winner ex_writes = \<lparr>w_value = ''z'', w_ttl = 0, w_ts = 9, w_now = 0\<rparr>"
    by (simp add: winner_def ex_writes_def)
  have m: "Max (w_ts ` set ex_writes) = 9"
    by (simp add: ex_writes_def)
  have n: "ex_writes \<noteq> []" by (simp add: ex_writes_def)
  show ?thesis
    using C2_put_last_writer_wins [where c = "Map.empty :: string Cache" and key = "''a''"
            and now = 0 and v = "''x''" and ttl = 0 and ts = 5 and ws = ex_writes
            and e = "\<lparr>Value = ''x'', Expiration = 0, LastUpdated = 5\<rparr>"]
          C2_put_last_writer_wins [where
            c = "[''a'' \<mapsto> \<lparr>Value = ''x'', Expiration = 0, LastUpdated = 5\<rparr>]"
            and key = "''a''" and now = 0 and v = "''y''" and ttl = 0 and ts = 4 and ws = "[]"
            and e = "\<lparr>Value = ''x'', Expiration = 0, LastUpdated = 5\<rparr>"]
    by (simp add: w m n)
qed

section \<open>Store: replaying a write\<close>

lemma expiration_of_no_ttl: "ttl \<le> 0 \<Longrightarrow> expiration_of t ttl = 0"
  by (simp add: expiration_of_def)

lemma replay_Cons:
  "replay c key v ttl ts (t # clocks) = replay (snd (Cache_Set c t key v ttl ts)) key v ttl ts clocks"
  by (simp add: replay_def)

lemma replay_rejected:
  "c key = Some e \<Longrightarrow> ts < LastUpdated e \<Longrightarrow> replay c key v ttl ts clocks = c"
  by (induction clocks) (simp_all add: replay_Cons Cache_Set_resident, simp add: replay_def)

lemma replay_accepted:
  "c key = Some e \<Longrightarrow> LastUpdated e \<le> ts \<Longrightarrow> clocks \<noteq> [] \<Longrightarrow>
     replay c key v ttl ts clocks =
       c(key \<mapsto> \<lparr>Value = v, Expiration = expiration_of (last clocks) ttl, LastUpdated = ts\<rparr>)"
proof (induction clocks arbitrary: c e)
  case Nil
  then show ?case by simp
next
  case (Cons t clocks)
  let ?c' = "c(key \<mapsto> \<lparr>Value = v, Expiration = expiration_of t ttl, LastUpdated = ts\<rparr>)"
  have step: "replay c key v ttl ts (t # clocks) = replay ?c' key v ttl ts clocks"
    using Cons.prems by (simp add: replay_Cons Cache_Set_resident)
  show ?case
  proof (cases "clocks = []")
    case True
    then show ?thesis using Cons.prems by (simp add: replay_def Cache_Set_resident)
  next
    case False
    have "replay ?c' key v ttl ts clocks =
       ?c'(key \<mapsto> \<lparr>Value = v, Expiration = expiration_of (last clocks) ttl, LastUpdated = ts\<rparr>)"
      by (rule Cons.IH [where e = "\<lparr>Value = v, Expiration = expiration_of t ttl, LastUpdated = ts\<rparr>"])
         (simp_all add: False)
    with False show ?thesis by (simp add: step)
  qed
qed

lemma first_delivery_cases:
  "(fst (Cache_Set c t0 key v ttl ts) \<and>
      snd (Cache_Set c t0 key v ttl ts) =
        c(key \<mapsto> \<lparr>Value = v, Expiration = expiration_of t0 ttl, LastUpdated = ts\<rparr>))
   \<or> (\<not> fst (Cache_Set c t0 key v ttl ts) \<and> snd (Cache_Set c t0 key v ttl ts) = c
       \<and> (\<exists>e. c key = Some e \<and> ts < LastUpdated e))"
  by (cases "c key") (auto simp: Cache_Set_def)

lemma expiration_of_eval1: "expiration_of 0 10 = 10"
  by (simp add: expiration_of_def wrap64_def Second_def Unix_def Add_def)

lemma expiration_of_eval2: "expiration_of (100 * Second) 10 = 110"
  by (simp add: expiration_of_def wrap64_def Second_def Unix_def Add_def)

text \<open>
  Claim C3, as stated, fails: a replay with a positive TTL at a later clock reading
  rewrites the expiration of the entry, so the store is not in the state a single delivery
  left; and a write older than the resident entry is rejected, not accepted.
\<close>

theorem C3_replay_counterexample:
  "replay (snd (Cache_Set (Map.empty :: string Cache) 0 ''k'' ''v'' 10 5)) ''k'' ''v'' 10 5 [100 * Second]
     \<noteq> snd (Cache_Set (Map.empty :: string Cache) 0 ''k'' ''v'' 10 5)
   \<and> \<not> fst (Cache_Set [''k'' \<mapsto> \<lparr>Value = ''w'', Expiration = 0, LastUpdated = 9\<rparr>] 0 ''k'' ''v'' 10 5)"
proof -
  have a: "replay (snd (Cache_Set (Map.empty :: string Cache) 0 ''k'' ''v'' 10 5)) ''k'' ''v'' 10 5
             [100 * Second] ''k'' = Some \<lparr>Value = ''v'', Expiration = 110, LastUpdated = 5\<rparr>"
    by (simp add: replay_def Cache_Set_def expiration_of_eval1 expiration_of_eval2)
  have b: "snd (Cache_Set (Map.empty :: string Cache) 0 ''k'' ''v'' 10 5) ''k''
             = Some \<lparr>Value = ''v'', Expiration = 10, LastUpdated = 5\<rparr>"
    by (simp add: Cache_Set_def expiration_of_eval1)
  have "replay (snd (Cache_Set (Map.empty :: string Cache) 0 ''k'' ''v'' 10 5)) ''k'' ''v'' 10 5 [100 * Second]
     \<noteq> snd (Cache_Set (Map.empty :: string Cache) 0 ''k'' ''v'' 10 5)"
  proof
    assume "replay (snd (Cache_Set (Map.empty :: string Cache) 0 ''k'' ''v'' 10 5)) ''k'' ''v'' 10 5 [100 * Second]
     = snd (Cache_Set (Map.empty :: string Cache) 0 ''k'' ''v'' 10 5)"
    then have "replay (snd (Cache_Set (Map.empty :: string Cache) 0 ''k'' ''v'' 10 5)) ''k'' ''v'' 10 5
             [100 * Second] ''k'' = snd (Cache_Set (Map.empty :: string Cache) 0 ''k'' ''v'' 10 5) ''k''"
      by simp
    with a b show False by simp
  qed
  moreover have "\<not> fst (Cache_Set [''k'' \<mapsto> \<lparr>Value = ''w'', Expiration = 0, LastUpdated = 9\<rparr>] 0 ''k'' ''v'' 10 5)"
    by (simp add: Cache_Set_def)
  ultimately show ?thesis by simp
qed

text \<open>
  Claim C3, amended. Replaying a write (same key, value, TTL and timestamp) any number of
  times after its first delivery gives the answer of the first delivery again and leaves
  the value and timestamp of every key as the first delivery left them. The whole store is
  unchanged when every replay computes the expiration of the first delivery (in particular
  when the TTL is not positive); otherwise an accepted replay leaves the entry with the
  expiration computed at the last replay.
\<close>

theorem C3_replay_keeps_visible_state:
  "fst (Cache_Set (replay (snd (Cache_Set c t0 key v ttl ts)) key v ttl ts clocks) t key v ttl ts)
     = fst (Cache_Set c t0 key v ttl ts)
   \<and> visible (replay (snd (Cache_Set c t0 key v ttl ts)) key v ttl ts clocks) k
       = visible (snd (Cache_Set c t0 key v ttl ts)) k
   \<and> ((\<forall>t' \<in> set clocks. expiration_of t' ttl = expiration_of t0 ttl) \<longrightarrow>
        replay (snd (Cache_Set c t0 key v ttl ts)) key v ttl ts clocks
          = snd (Cache_Set c t0 key v ttl ts))
   \<and> (fst (Cache_Set c t0 key v ttl ts) \<and> clocks \<noteq> [] \<longrightarrow>
        replay (snd (Cache_Set c t0 key v ttl ts)) key v ttl ts clocks key
          = Some \<lparr>Value = v, Expiration = expiration_of (last clocks) ttl, LastUpdated = ts\<rparr>)"
proof -
  define c1 where "c1 = snd (Cache_Set c t0 key v ttl ts)"
  define r1 where "r1 = fst (Cache_Set c t0 key v ttl ts)"
  let ?item = "\<lambda>now. \<lparr>Value = v, Expiration = expiration_of now ttl, LastUpdated = ts\<rparr>"
  consider (stored) "r1" "c1 = c(key \<mapsto> ?item t0)"
    | (stale) e where "\<not> r1" "c1 = c" "c key = Some e" "ts < LastUpdated e"
    using first_delivery_cases [of c t0 key v ttl ts] unfolding c1_def r1_def by blast
  then have "fst (Cache_Set (replay c1 key v ttl ts clocks) t key v ttl ts) = r1
     \<and> visible (replay c1 key v ttl ts clocks) k = visible c1 k
     \<and> ((\<forall>t' \<in> set clocks. expiration_of t' ttl = expiration_of t0 ttl) \<longrightarrow>
          replay c1 key v ttl ts clocks = c1)
     \<and> (r1 \<and> clocks \<noteq> [] \<longrightarrow> replay c1 key v ttl ts clocks key = Some (?item (last clocks)))"
  proof cases
    case stale
    then have "replay c1 key v ttl ts clocks = c1"
      by (simp add: replay_rejected)
    with stale show ?thesis
      by (simp add: Cache_Set_resident)
  next
    case stored
    show ?thesis
    proof (cases "clocks = []")
      case True
      with stored show ?thesis
        by (simp add: replay_def Cache_Set_resident)
    next
      case False
      have k1: "c1 key = Some (?item t0)" using stored by simp
      have r: "replay c1 key v ttl ts clocks = c1(key \<mapsto> ?item (last clocks))"
        using replay_accepted [of c1 key "?item t0" ts clocks v ttl] False k1 by simp
      have g1: "fst (Cache_Set (c1(key \<mapsto> ?item (last clocks))) t key v ttl ts) = r1"
        using stored(1) by (simp add: Cache_Set_resident)
      have g2: "visible (c1(key \<mapsto> ?item (last clocks))) k = visible c1 k"
        using k1 by (simp add: visible_def)
      have "last clocks \<in> set clocks" using False by simp
      then have g3: "(\<forall>t' \<in> set clocks. expiration_of t' ttl = expiration_of t0 ttl) \<longrightarrow>
          c1(key \<mapsto> ?item (last clocks)) = c1"
        using k1 by (auto simp: map_upd_triv)
      show ?thesis
        unfolding r using g1 g2 g3 by simp
    qed
  qed
  then show ?thesis unfolding c1_def r1_def .
qed

theorem C3_replay_keeps_visible_state_witness:
  "visible (replay (snd (Cache_Set (Map.empty :: string Cache) 0 ''k'' ''v'' 10 5)) ''k'' ''v'' 10 5
             [100 * Second, 200 * Second]) ''k'' = Some (''v'', 5)
   \<and> replay (snd (Cache_Set (Map.empty :: string Cache) 0 ''k'' ''v'' 0 5)) ''k'' ''v'' 0 5
             [100 * Second, 200 * Second] = snd (Cache_Set (Map.empty :: string Cache) 0 ''k'' ''v'' 0 5)
   \<and> replay (snd (Cache_Set (Map.empty :: string Cache) 0 ''k'' ''v'' 10 5)) ''k'' ''v'' 10 5
             [100 * Second] ''k'' = Some \<lparr>Value = ''v'', Expiration = 110, LastUpdated = 5\<rparr>"
  using C3_replay_keeps_visible_state [where c = "Map.empty :: string Cache" and ?t0.0 = 0 and key = "''k''"
          and v = "''v''" and ttl = 10 and ts = 5 and clocks = "[100 * Second, 200 * Second]"
          and k = "''k''" and t = 0]
        C3_replay_keeps_visible_state [where c = "Map.empty :: string Cache" and ?t0.0 = 0 and key = "''k''"
          and v = "''v''" and ttl = 0 and ts = 5 and clocks = "[100 * Second, 200 * Second]"
          and k = "''k''" and t = 0]
        C3_replay_keeps_visible_state [where c = "Map.empty :: string Cache" and ?t0.0 = 0 and key = "''k''"
          and v = "''v''" and ttl = 10 and ts = 5 and clocks = "[100 * Second]"
          and k = "''k''" and t = 0]
  by (simp add: Cache_Set_fresh expiration_of_eval2 expiration_of_no_ttl visible_def)

section \<open>Store: expiry on read\<close>

text \<open>
  \<open>Cache.Get\<close> reports absent for a missing key, removes and reports absent an entry whose
  positive expiration lies before the current Unix second, and reports the value otherwise.
  For a TTL whose nanosecond count fits 64 bits the entry lives exactly \<open>T\<close> seconds.
\<close>

lemma Cache_Get_cases:
  "Cache_Get c now key =
     (case c key of
        None \<Rightarrow> (None, c)
      | Some item \<Rightarrow>
          if 0 < Expiration item \<and> Expiration item < Unix now then (None, c(key := None))
          else (Some (Value item), c))"
  by (simp add: Cache_Get_def)

lemma wrap64_in_range: "- (2 ^ 63) \<le> x \<Longrightarrow> x < 2 ^ 63 \<Longrightarrow> wrap64 x = x"
  by (simp add: wrap64_def)

lemma expiration_of_in_range:
  assumes "0 < T" "T \<le> 9223372036"
  shows "expiration_of t0 T = Unix t0 + T"
proof -
  have "wrap64 (T * Second) = T * Second"
    using assms by (intro wrap64_in_range) (simp_all add: Second_def)
  then show ?thesis
    using assms by (simp add: expiration_of_def Unix_def Add_def Second_def)
qed

lemma ttl_in_range:
  assumes "0 < T" "T \<le> 9223372036" "0 \<le> Unix t0"
    and "fst (Cache_Set c t0 key v T ts)"
  shows "Unix t \<le> Unix t0 + T \<longrightarrow>
           Cache_Get (snd (Cache_Set c t0 key v T ts)) t key
             = (Some v, snd (Cache_Set c t0 key v T ts))"
    and "Unix t > Unix t0 + T \<longrightarrow>
           Cache_Get (snd (Cache_Set c t0 key v T ts)) t key
             = (None, (snd (Cache_Set c t0 key v T ts))(key := None))"
proof -
  have e: "snd (Cache_Set c t0 key v T ts) key
      = Some \<lparr>Value = v, Expiration = Unix t0 + T, LastUpdated = ts\<rparr>"
    using assms(4) expiration_of_in_range [OF assms(1,2), of t0]
    by (cases "c key") (auto simp: Cache_Set_def split: if_splits)
  show "Unix t \<le> Unix t0 + T \<longrightarrow>
           Cache_Get (snd (Cache_Set c t0 key v T ts)) t key
             = (Some v, snd (Cache_Set c t0 key v T ts))"
    by (simp add: Cache_Get_def e)
  show "Unix t > Unix t0 + T \<longrightarrow>
           Cache_Get (snd (Cache_Set c t0 key v T ts)) t key
             = (None, (snd (Cache_Set c t0 key v T ts))(key := None))"
    using assms(1,3) by (simp add: Cache_Get_def e)
qed

lemma expiration_of_overflow: "expiration_of (1000 * Second) 18446744074 = 1000"
  by (simp add: expiration_of_def wrap64_def Second_def Unix_def Add_def)

text \<open>
  Claim C5 at a TTL whose product with \<open>time.Second\<close> leaves the 64-bit range: the
  write \<open>{"key":"b","value":"x","ttl":18446744074}\<close> arriving at Unix second 1000 is
  stored with expiration 1000, and a read two seconds later, long before the TTL has
  passed, already finds the entry expired.
\<close>

theorem C5_ttl_overflow_expires_early:
  "Unix (1002 * Second) \<le> Unix (1000 * Second) + 18446744074
   \<and> fst (Cache_Set (Map.empty :: string Cache) (1000 * Second) ''b'' ''x'' 18446744074 1)
   \<and> fst (Cache_Get (snd (Cache_Set (Map.empty :: string Cache) (1000 * Second) ''b'' ''x'' 18446744074 1))
          (1002 * Second) ''b'') = None"
proof -
  have "Unix (1002 * Second) = 1002" "Unix (1000 * Second) = 1000"
    by (simp_all add: Unix_def Second_def)
  then show ?thesis
    by (simp add: Cache_Set_def Cache_Get_def expiration_of_overflow)
qed

section \<open>Store: timestamps per key\<close>

lemma apply_op_step:
  "c key = Some e \<Longrightarrow> apply_op c x key = Some e' \<Longrightarrow> LastUpdated e \<le> LastUpdated e'"
proof (cases x)
  case (Put k v ttl ts now)
  assume a: "c key = Some e" "apply_op c x key = Some e'"
  show ?thesis
  proof (cases "k = key")
    case True
    with a Put show ?thesis
      by (auto simp: Cache_Set_def split: if_splits)
  next
    case False
    with a Put show ?thesis
      by (cases "c k") (auto simp: Cache_Set_def split: if_splits)
  qed
next
  case (Get k now)
  assume a: "c key = Some e" "apply_op c x key = Some e'"
  with Get show ?thesis
    by (cases "c k") (auto simp: Cache_Get_def split: if_splits)
next
  case (Del k)
  assume a: "c key = Some e" "apply_op c x key = Some e'"
  with Del show ?thesis
    by (auto simp: Cache_Delete_def split: if_splits)
qed

lemma trace_resident_sorted:
  "resident_trace c key ops = map Some tss \<Longrightarrow> sorted tss"
proof (induction ops arbitrary: c tss)
  case Nil
  then have "length tss = 1"
    by (metis length_map length_Cons list.size(3) One_nat_def resident_trace.simps(1))
  then show ?case by (cases tss) auto
next
  case (Cons x ops)
  from Cons.prems obtain a rest where tss: "tss = a # rest"
    and a: "map_option LastUpdated (c key) = Some a"
    and rest: "resident_trace (apply_op c x) key ops = map Some rest"
    by (cases tss) auto
  have srt: "sorted rest" using Cons.IH [OF rest] .
  obtain b rest' where r: "rest = b # rest'"
    and b: "map_option LastUpdated (apply_op c x key) = Some b"
    using rest by (cases ops; cases rest) auto
  from a obtain e where e: "c key = Some e" "LastUpdated e = a" by auto
  from b obtain e' where e': "apply_op c x key = Some e'" "LastUpdated e' = b" by auto
  have "a \<le> b" using apply_op_step [OF e(1) e'(1)] e(2) e'(2) by simp
  with srt r tss show ?case by auto
qed

text \<open>
  Claim C6, as stated, fails: a delete (or an expiry on read) removes the entry, and the
  next put is admitted whatever its timestamp. After put 100, delete, put 50 the resident
  timestamps are 100 and then 50.
\<close>

theorem C6_delete_resets_counterexample:
  "resident_trace (Map.empty :: string Cache) ''k'' ex_reset_ops = [None, Some 100, None, Some 50]"
  by (simp add: ex_reset_ops_def Cache_Set_def Cache_Delete_def expiration_of_def)

text \<open>
  Claim C6, amended. No single put, get or delete takes a resident entry of a key to a
  resident entry with a smaller timestamp; hence along any run of puts, gets and deletes
  during which the key is resident at every point (no delete, no expiry on read removed
  it), the resident timestamps never decrease.
\<close>

theorem C6_timestamp_monotone_while_resident:
  "(c key = Some e \<and> apply_op c x key = Some e' \<longrightarrow> LastUpdated e \<le> LastUpdated e')
   \<and> (resident_trace c key ops = map Some tss \<longrightarrow> sorted tss)"
  using apply_op_step [of c key e x e'] trace_resident_sorted [of c key ops tss] by blast

lemma ex_ops_trace: "resident_trace ex_store ''k'' ex_ops = map Some [1, 5, 5, 5, 7]"
  by (simp add: ex_store_def ex_ops_def Cache_Set_def Cache_Get_def expiration_of_def)

theorem C6_timestamp_monotone_while_resident_witness:
  "resident_trace ex_store ''k'' ex_ops = map Some [1, 5, 5, 5, 7] \<and> sorted [1, 5, 5, 5, 7 :: int]
   \<and> ex_store ''k'' = Some \<lparr>Value = ''o'', Expiration = 0, LastUpdated = 1\<rparr>
   \<and> apply_op ex_store (Put ''k'' ''a'' 0 5 0) ''k''
       = Some \<lparr>Value = ''a'', Expiration = 0, LastUpdated = 5\<rparr>
   \<and> LastUpdated \<lparr>Value = ''o'', Expiration = 0, LastUpdated = 1\<rparr>
       \<le> LastUpdated \<lparr>Value = ''a'', Expiration = 0, LastUpdated = 5\<rparr>"
  using C6_timestamp_monotone_while_resident [where c = ex_store and key = "''k''"
          and e = "\<lparr>Value = ''o'', Expiration = 0, LastUpdated = 1\<rparr>"
          and x = "Put ''k'' ''a'' 0 5 0"
          and e' = "\<lparr>Value = ''a'', Expiration = 0, LastUpdated = 5\<rparr>"
          and ops = ex_ops and tss = "[1, 5, 5, 5, 7]"]
        ex_ops_trace
  by (simp add: ex_store_def Cache_Set_def expiration_of_def)

section \<open>Hash ring: lookups\<close>

subsection \<open>Binary search\<close>

lemma Search_loop_bounds: "i \<le> j \<Longrightarrow> i \<le> Search_loop f i j \<and> Search_loop f i j \<le> j"
proof (induction f i j rule: Search_loop.induct)
  case (1 f i j)
  show ?case
  proof (cases "i < j")
    case False
    then have "Search_loop f i j = i" by (subst Search_loop.simps) simp
    with "1.prems" show ?thesis by simp
  next
    case True
    let ?h = "(i + j) div 2"
    have mid: "i \<le> ?h" "?h < j" using True by linarith+
    show ?thesis
    proof (cases "f ?h")
      case False
      have eq: "Search_loop f i j = Search_loop f (?h + 1) j"
        using True False by (subst Search_loop.simps) simp
      have le: "?h + 1 \<le> j" using mid by simp
      have "?h + 1 \<le> Search_loop f (?h + 1) j \<and> Search_loop f (?h + 1) j \<le> j"
        by (rule "1.IH"(1) [OF True False le])
      then show ?thesis unfolding eq using mid by linarith
    next
      case f: True
      have eq: "Search_loop f i j = Search_loop f i ?h"
        using True f by (subst Search_loop.simps) simp
      have nn: "\<not> \<not> f ?h" using f by simp
      have "i \<le> Search_loop f i ?h \<and> Search_loop f i ?h \<le> ?h"
        by (rule "1.IH"(2) [OF True nn mid(1)])
      then show ?thesis unfolding eq using mid by linarith
    qed
  qed
qed

lemma Search_loop_least:
  assumes "\<forall>a b. a \<le> b \<and> b < n \<and> f a \<longrightarrow> f b"
    and "i \<le> j" "j \<le> n"
    and "\<forall>a<i. \<not> f a"
    and "\<forall>a. j \<le> a \<and> a < n \<longrightarrow> f a"
  shows "(\<forall>a < Search_loop f i j. \<not> f a) \<and> (\<forall>a. Search_loop f i j \<le> a \<and> a < n \<longrightarrow> f a)"
  using assms
proof (induction f i j rule: Search_loop.induct)
  case (1 f i j)
  show ?case
  proof (cases "i < j")
    case False
    then have "Search_loop f i j = i" by (subst Search_loop.simps) simp
    with False "1.prems" show ?thesis by simp
  next
    case True
    let ?h = "(i + j) div 2"
    have mid: "i \<le> ?h" "?h < j" using True by linarith+
    show ?thesis
    proof (cases "f ?h")
      case False
      have eq: "Search_loop f i j = Search_loop f (?h + 1) j"
        using True False by (subst Search_loop.simps) simp
      have below: "\<forall>a<?h + 1. \<not> f a"
      proof (intro allI impI)
        fix a assume "a < ?h + 1"
        then have "a \<le> ?h" by simp
        moreover have "?h < n" using mid "1.prems"(3) by simp
        ultimately show "\<not> f a" using "1.prems"(1) False by blast
      qed
      have le: "?h + 1 \<le> j" using mid by simp
      note IH = "1.IH"(1) [OF True False "1.prems"(1) le "1.prems"(3) below "1.prems"(5)]
      show ?thesis unfolding eq by (rule IH)
    next
      case f: True
      have eq: "Search_loop f i j = Search_loop f i ?h"
        using True f by (subst Search_loop.simps) simp
      have above: "\<forall>a. ?h \<le> a \<and> a < n \<longrightarrow> f a"
        using "1.prems"(1) f by blast
      have hn: "?h \<le> n" using mid "1.prems"(3) by simp
      have nn: "\<not> \<not> f ?h" using f by simp
      note IH = "1.IH"(2) [OF True nn "1.prems"(1) mid(1) hn "1.prems"(4) above]
      show ?thesis unfolding eq by (rule IH)
    qed
  qed
qed

lemma Search_le: "Search n f \<le> n"
  using Search_loop_bounds [of 0 n f] by (simp add: Search_def)

lemma Search_sorted:
  assumes "sorted xs"
  shows "(\<forall>a < Search (length xs) (\<lambda>i. x \<le> xs ! i). xs ! a < x)
       \<and> (\<forall>a. Search (length xs) (\<lambda>i. x \<le> xs ! i) \<le> a \<and> a < length xs \<longrightarrow> x \<le> xs ! a)"
proof -
  have mono: "\<forall>a b. a \<le> b \<and> b < length xs \<and> x \<le> xs ! a \<longrightarrow> x \<le> xs ! b"
    using assms by (meson order_trans sorted_nth_mono)
  have "(\<forall>a < Search_loop (\<lambda>i. x \<le> xs ! i) 0 (length xs). \<not> x \<le> xs ! a)
       \<and> (\<forall>a. Search_loop (\<lambda>i. x \<le> xs ! i) 0 (length xs) \<le> a \<and> a < length xs \<longrightarrow> x \<le> xs ! a)"
    by (rule Search_loop_least [OF mono]) auto
  then show ?thesis by (simp add: Search_def not_le)
qed

lemma start_index_less: "nodes h \<noteq> [] \<Longrightarrow> start_index H h key < length (nodes h)"
  using Search_le [of "length (nodes h)" "\<lambda>i. uint (H key) \<le> nodes h ! i"]
  by (auto simp: start_index_def Let_def)

lemma start_index_least:
  assumes "sorted (nodes h)" "i < length (nodes h)" "uint (H key) \<le> nodes h ! i"
  shows "uint (H key) \<le> nodes h ! start_index H h key"
    and "\<forall>j < start_index H h key. nodes h ! j < uint (H key)"
proof -
  let ?s = "Search (length (nodes h)) (\<lambda>i. uint (H key) \<le> nodes h ! i)"
  have S: "(\<forall>a < ?s. nodes h ! a < uint (H key))
       \<and> (\<forall>a. ?s \<le> a \<and> a < length (nodes h) \<longrightarrow> uint (H key) \<le> nodes h ! a)"
    using Search_sorted [OF assms(1)] by blast
  have "?s \<le> i"
  proof (rule ccontr)
    assume "\<not> ?s \<le> i"
    then have "nodes h ! i < uint (H key)" using S by simp
    with assms(3) show False by simp
  qed
  then have lt: "?s < length (nodes h)" using assms(2) by simp
  then have eq: "start_index H h key = ?s" by (simp add: start_index_def Let_def)
  show "uint (H key) \<le> nodes h ! start_index H h key" using S lt unfolding eq by simp
  show "\<forall>j < start_index H h key. nodes h ! j < uint (H key)" using S unfolding eq by simp
qed

lemma start_index_wraps:
  assumes "sorted (nodes h)" "\<forall>i < length (nodes h). nodes h ! i < uint (H key)"
  shows "start_index H h key = 0"
proof -
  let ?s = "Search (length (nodes h)) (\<lambda>i. uint (H key) \<le> nodes h ! i)"
  have S: "\<forall>a. ?s \<le> a \<and> a < length (nodes h) \<longrightarrow> uint (H key) \<le> nodes h ! a"
    using Search_sorted [OF assms(1)] by blast
  have "\<not> ?s < length (nodes h)"
  proof
    assume "?s < length (nodes h)"
    then have "uint (H key) \<le> nodes h ! ?s" using S by simp
    moreover have "nodes h ! ?s < uint (H key)" using assms(2) \<open>?s < length (nodes h)\<close> by simp
    ultimately show False by simp
  qed
  then have "?s = length (nodes h)"
    using Search_le [of "length (nodes h)" "\<lambda>i. uint (H key) \<le> nodes h ! i"] by simp
  then show ?thesis by (simp add: start_index_def Let_def)
qed

subsection \<open>First occurrences\<close>

lemma append_unseen_seen: "x \<in> set acc \<Longrightarrow> append_unseen acc x = acc"
  by (simp add: append_unseen_def)

lemma append_unseen_new: "x \<notin> set acc \<Longrightarrow> append_unseen acc x = acc @ [x]"
  by (simp add: append_unseen_def)

lemma foldl_append_unseen_prefix: "\<exists>ys. foldl append_unseen acc xs = acc @ ys"
proof (induction xs arbitrary: acc)
  case Nil
  show ?case by simp
next
  case (Cons x xs)
  obtain ys where "foldl append_unseen (append_unseen acc x) xs = append_unseen acc x @ ys"
    using Cons.IH by blast
  then show ?case
    by (cases "x \<in> set acc") (simp_all add: append_unseen_seen append_unseen_new)
qed

lemma set_append_unseen: "set (append_unseen acc x) = insert x (set acc)"
  by (cases "x \<in> set acc") (auto simp: append_unseen_seen append_unseen_new)

lemma distinct_append_unseen: "distinct acc \<Longrightarrow> distinct (append_unseen acc x)"
  by (cases "x \<in> set acc") (auto simp: append_unseen_seen append_unseen_new)

lemma set_foldl_append_unseen: "set (foldl append_unseen acc xs) = set acc \<union> set xs"
  by (induction xs arbitrary: acc) (auto simp: set_append_unseen)

lemma distinct_foldl_append_unseen: "distinct acc \<Longrightarrow> distinct (foldl append_unseen acc xs)"
  by (induction xs arbitrary: acc) (auto simp: distinct_append_unseen)

lemma set_first_seen: "set (first_seen xs) = set xs"
  by (simp add: first_seen_def set_foldl_append_unseen)

lemma distinct_first_seen: "distinct (first_seen xs)"
  by (simp add: first_seen_def distinct_foldl_append_unseen)

lemma length_first_seen: "length (first_seen xs) = card (set xs)"
  using distinct_card [OF distinct_first_seen, of xs] by (simp add: set_first_seen)

lemma first_seen_Cons: "\<exists>ys. first_seen (x # xs) = x # ys"
  using foldl_append_unseen_prefix [of "[x]" xs] by (simp add: first_seen_def append_unseen_new)

subsection \<open>The walk\<close>

lemma length_walk: "length (walk h idx) = length (nodes h) * 2"
  by (simp add: walk_def)

lemma nth_walk:
  "i < length (nodes h) * 2 \<Longrightarrow>
     walk h idx ! i = map_get (nodeMap h) (nodes h ! ((idx + i) mod length (nodes h)))"
  by (simp add: walk_def)

lemma set_walk:
  assumes "nodes h \<noteq> []"
  shows "set (walk h idx) = owners h"
proof
  show "set (walk h idx) \<subseteq> owners h"
    using assms by (auto simp: walk_def owners_def)
next
  show "owners h \<subseteq> set (walk h idx)"
  proof
    fix s assume "s \<in> owners h"
    then obtain j where j: "j < length (nodes h)" "s = map_get (nodeMap h) (nodes h ! j)"
      by (auto simp: owners_def in_set_conv_nth)
    let ?n = "length (nodes h)"
    let ?i = "(j + ?n * idx - idx) mod ?n"
    have n: "0 < ?n" using assms by simp
    then have "idx \<le> ?n * idx" by (cases "length (nodes h)") simp_all
    then have "idx + (j + ?n * idx - idx) = j + ?n * idx" by linarith
    then have "(idx + ?i) mod ?n = (j + ?n * idx) mod ?n"
      by (metis mod_add_right_eq)
    also have "\<dots> = j" using j(1) by simp
    finally have m: "(idx + ?i) mod ?n = j" .
    have "?i < ?n * 2" using n by (simp add: less_le_trans [OF mod_less_divisor])
    then have "walk h idx ! ?i = s" "?i < length (walk h idx)"
      using m j(2) by (simp_all add: nth_walk length_walk)
    then show "s \<in> set (walk h idx)" by (metis nth_mem)
  qed
qed

subsection \<open>The loop of GetReplicas\<close>

lemma GetReplicas_loop_eq:
  "seen = set reps \<Longrightarrow> length reps \<le> nat k \<Longrightarrow>
     GetReplicas_loop h idx k i seen reps
       = take (nat k) (foldl append_unseen reps (drop i (walk h idx)))"
proof (induction h idx k i seen reps rule: GetReplicas_loop.induct)
  case (1 h idx k i seen reps)
  let ?x = "map_get (nodeMap h) (nodes h ! ((idx + i) mod length (nodes h)))"
  obtain ys where ys: "foldl append_unseen reps (drop i (walk h idx)) = reps @ ys"
    using foldl_append_unseen_prefix by blast
  show ?case
  proof (cases "int (length reps) < k \<and> i < length (nodes h) * 2")
    case False
    then have stop: "GetReplicas_loop h idx k i seen reps = reps"
      by (subst GetReplicas_loop.simps) (simp only: if_False)
    show ?thesis
    proof (cases "i < length (nodes h) * 2")
      case True
      with False "1.prems" have "length reps = nat k" by linarith
      then show ?thesis by (simp add: stop ys)
    next
      case False
      then show ?thesis using "1.prems"(2) by (simp add: stop length_walk)
    qed
  next
    case True
    then have d: "drop i (walk h idx) = ?x # drop (Suc i) (walk h idx)"
      by (simp add: Cons_nth_drop_Suc [symmetric] length_walk nth_walk)
    show ?thesis
    proof (cases "?x \<in> seen")
      case seen: True
      have "GetReplicas_loop h idx k i seen reps = GetReplicas_loop h idx k (i + 1) seen reps"
        using True seen by (subst GetReplicas_loop.simps) simp
      also have "\<dots> = take (nat k) (foldl append_unseen reps (drop (i + 1) (walk h idx)))"
        using "1.IH"(2) [OF True _ "1.prems"] seen by simp
      finally show ?thesis
        using seen "1.prems"(1) by (simp add: d append_unseen_seen)
    next
      case unseen: False
      have "GetReplicas_loop h idx k i seen reps
              = GetReplicas_loop h idx k (i + 1) (insert ?x seen) (reps @ [?x])"
        using True unseen by (subst GetReplicas_loop.simps) simp
      also have "\<dots> = take (nat k) (foldl append_unseen (reps @ [?x]) (drop (i + 1) (walk h idx)))"
      proof (rule "1.IH"(1) [OF True unseen])
        show "insert ?x seen = set (reps @ [?x])" using "1.prems"(1) by simp
        have "length reps < nat k" using True by linarith
        then show "length (reps @ [?x]) \<le> nat k" by simp
      qed
      finally show ?thesis
        using unseen "1.prems"(1) by (simp add: d append_unseen_new)
    qed
  qed
qed

lemma GetReplicas_eq:
  "nodes h \<noteq> [] \<Longrightarrow> 0 < k \<Longrightarrow>
     GetReplicas H h key k = take (nat k) (first_seen (walk h (start_index H h key)))"
  by (simp add: GetReplicas_def GetReplicas_loop_eq first_seen_def)

lemma hd_GetReplicas:
  assumes "nodes h \<noteq> []" "0 < k"
  shows "GetReplicas H h key k \<noteq> []" "hd (GetReplicas H h key k) = GetNode H h key"
proof -
  let ?idx = "start_index H h key"
  have lt: "?idx < length (nodes h)" using assms(1) by (rule start_index_less)
  have "walk h ?idx \<noteq> []" using assms(1) by (simp add: walk_def)
  then obtain xs where w: "walk h ?idx = walk h ?idx ! 0 # xs"
    by (cases "walk h ?idx") auto
  have "walk h ?idx ! 0 = map_get (nodeMap h) (nodes h ! ?idx)"
    using assms(1) lt by (simp add: nth_walk)
  then have w': "walk h ?idx = GetNode H h key # xs"
    using w assms(1) by (simp add: GetNode_def)
  obtain ys where "first_seen (walk h ?idx) = GetNode H h key # ys"
    using first_seen_Cons [of "GetNode H h key" xs] w' by auto
  moreover obtain m where "nat k = Suc m" using assms(2) by (cases "nat k") auto
  ultimately show "GetReplicas H h key k \<noteq> []" "hd (GetReplicas H h key k) = GetNode H h key"
    using assms by (simp_all add: GetReplicas_eq)
qed

subsection \<open>Ring construction\<close>

lemma fold_add_point:
  "fold (add_point H nodeID) is h =
     h\<lparr>nodes := nodes h @ map (\<lambda>i. uint (H (point_name nodeID i))) is,
       nodeMap := (\<lambda>x. if x \<in> (\<lambda>i. uint (H (point_name nodeID i))) ` set is then Some nodeID
                        else nodeMap h x)\<rparr>"
proof (induction "is" arbitrary: h)
  case Nil
  show ?case by simp
next
  case (Cons i "is")
  show ?case
    by (simp only: fold_simps o_apply Cons.IH) (auto simp: add_point_def Let_def fun_eq_iff)
qed

lemma AddNode_nodes: "nodes (AddNode H h nodeID) = sort (nodes h @ point_hashes H h nodeID)"
  by (simp add: AddNode_def Let_def fold_add_point point_hashes_def)

lemma AddNode_nodeMap:
  "nodeMap (AddNode H h nodeID) x =
     (if x \<in> set (point_hashes H h nodeID) then Some nodeID else nodeMap h x)"
  by (simp add: AddNode_def Let_def fold_add_point point_hashes_def)

lemma AddNode_replicas: "replicas (AddNode H h nodeID) = replicas h"
  by (simp add: AddNode_def Let_def fold_add_point)

lemma remove_step_keep:
  "map_get m x \<noteq> nodeID \<Longrightarrow> remove_step nodeID x (acc, m) = (acc @ [x], m)"
  by (simp add: remove_step_def)

lemma remove_step_drop:
  "map_get m x = nodeID \<Longrightarrow> remove_step nodeID x (acc, m) = (acc, m(x := None))"
  by (simp add: remove_step_def)

lemma fold_remove_step_sorted:
  "sorted (acc @ xs) \<Longrightarrow> sorted (fst (fold (remove_step nodeID) xs (acc, m)))"
proof (induction xs arbitrary: acc m)
  case Nil
  then show ?case by simp
next
  case (Cons x xs)
  show ?case
  proof (cases "map_get m x \<noteq> nodeID")
    case True
    have "sorted ((acc @ [x]) @ xs)" using Cons.prems by simp
    then have "sorted (fst (fold (remove_step nodeID) xs (acc @ [x], m)))"
      by (rule Cons.IH)
    with True show ?thesis by (simp add: remove_step_keep)
  next
    case False
    have "sorted (acc @ xs)" using Cons.prems by (auto simp: sorted_append)
    then have "sorted (fst (fold (remove_step nodeID) xs (acc, m(x := None))))"
      by (rule Cons.IH)
    with False show ?thesis by (simp add: remove_step_drop)
  qed
qed

lemma RemoveNode_sorted: "sorted (nodes h) \<Longrightarrow> sorted (nodes (RemoveNode h nodeID))"
  using fold_remove_step_sorted [of "[]" "nodes h" nodeID "nodeMap h"]
  by (cases "fold (remove_step nodeID) (nodes h) ([], nodeMap h)") (simp add: RemoveNode_def)

lemma built_sorted: "built H h \<Longrightarrow> sorted (nodes h)"
proof (induction rule: built.induct)
  case (built_new n)
  show ?case by (simp add: NewHashRing_def)
next
  case (built_add h nodeID)
  show ?case by (simp add: AddNode_nodes)
next
  case (built_remove h nodeID)
  then show ?case by (simp add: RemoveNode_sorted)
qed

subsection \<open>The example ring\<close>

lemma ex_points:
  "point_name ''a'' 0 = ''a#0''" "point_name ''a'' 1 = ''a#1''"
  "point_name ''b'' 0 = ''b#0''" "point_name ''b'' 1 = ''b#1''"
  by (simp_all add: point_name_def decimal.simps)

lemma ex_hash_points:
  "uint (ex_hash ''a#0'') = 180" "uint (ex_hash ''a#1'') = 181"
  "uint (ex_hash ''b#0'') = 181" "uint (ex_hash ''b#1'') = 182"
  by (simp_all add: ex_hash_def)

lemma ex_ring_built: "built ex_hash ex_ring"
  unfolding ex_ring_def by (intro built.intros)

lemma ex_ring_nodes: "nodes ex_ring = [180, 181, 181, 182]"
  by code_simp

lemma ex_ring_owners: "map (map_get (nodeMap ex_ring)) (nodes ex_ring) = [''a'', ''b'', ''b'', ''b'']"
  by code_simp

lemma ex_start: "start_index ex_hash ex_ring ''b#1'' = 3"
  by code_simp

lemma ex_replicas: "GetReplicas ex_hash ex_ring ''b#1'' 3 = [''b'', ''a'']"
  by code_simp

lemma ex_owners_card: "card (owners ex_ring) = 2"
  by code_simp

lemma ex_primary: "GetNode ex_hash ex_ring ''b#1'' = ''b''"
  by code_simp

text \<open>
  Claim C4. On a non-empty ring and for \<open>k \<ge> 1\<close>, \<open>GetReplicas\<close> starts at the smallest
  index whose hash is at least the hash of the key, or at 0 when there is none; it returns
  the first \<open>k\<close> node IDs, each at its first occurrence, of the walk over \<open>2 * |points|\<close>
  points from there with wrap-around; the IDs are distinct; fewer than \<open>k\<close> are returned
  exactly when the walk meets fewer than \<open>k\<close> distinct IDs, and the walk meets every
  owner of a point; the first ID returned is the one \<open>GetNode\<close> returns.
\<close>

theorem C4_top_k_walk:
  assumes "built H h" "nodes h \<noteq> []" "1 \<le> k"
  shows "start_index H h key < length (nodes h)
    \<and> (if \<exists>i < length (nodes h). uint (H key) \<le> nodes h ! i
       then uint (H key) \<le> nodes h ! start_index H h key
            \<and> (\<forall>j < start_index H h key. nodes h ! j < uint (H key))
       else start_index H h key = 0)
    \<and> GetReplicas H h key k = take (nat k) (first_seen (walk h (start_index H h key)))
    \<and> distinct (GetReplicas H h key k)
    \<and> (length (GetReplicas H h key k) < nat k
         \<longleftrightarrow> card (set (walk h (start_index H h key))) < nat k)
    \<and> set (walk h (start_index H h key)) = owners h
    \<and> GetReplicas H h key k \<noteq> []
    \<and> hd (GetReplicas H h key k) = GetNode H h key"
proof -
  have srt: "sorted (nodes h)" using assms(1) by (rule built_sorted)
  have k: "0 < k" using assms(3) by simp
  have a: "start_index H h key < length (nodes h)"
    using assms(2) by (rule start_index_less)
  have b: "if \<exists>i < length (nodes h). uint (H key) \<le> nodes h ! i
       then uint (H key) \<le> nodes h ! start_index H h key
            \<and> (\<forall>j < start_index H h key. nodes h ! j < uint (H key))
       else start_index H h key = 0"
  proof (cases "\<exists>i < length (nodes h). uint (H key) \<le> nodes h ! i")
    case True
    then obtain i where "i < length (nodes h)" "uint (H key) \<le> nodes h ! i" by blast
    then show ?thesis
      using start_index_least [OF srt, of i H key] True by auto
  next
    case False
    then have "\<forall>i < length (nodes h). nodes h ! i < uint (H key)" by (simp add: not_le)
    then show ?thesis
      using start_index_wraps [OF srt, of H key] False by auto
  qed
  have c: "GetReplicas H h key k = take (nat k) (first_seen (walk h (start_index H h key)))"
    using assms(2) k by (rule GetReplicas_eq)
  have d: "distinct (GetReplicas H h key k)"
    unfolding c by (intro distinct_take distinct_first_seen)
  have e: "length (GetReplicas H h key k) < nat k
         \<longleftrightarrow> card (set (walk h (start_index H h key))) < nat k"
    unfolding c by (simp add: length_first_seen min_def)
  have f: "set (walk h (start_index H h key)) = owners h"
    using assms(2) by (rule set_walk)
  show ?thesis
    using a b c d e f hd_GetReplicas [OF assms(2) k, of H key] by blast
qed

theorem C4_top_k_walk_witness:
  "built ex_hash ex_ring \<and> nodes ex_ring \<noteq> [] \<and> (1 :: int) \<le> 3
   \<and> start_index ex_hash ex_ring ''b#1'' = 3
   \<and> GetReplicas ex_hash ex_ring ''b#1'' 3 = [''b'', ''a'']
   \<and> length (GetReplicas ex_hash ex_ring ''b#1'' 3) < nat 3
   \<and> card (owners ex_ring) < nat 3
   \<and> hd (GetReplicas ex_hash ex_ring ''b#1'' 3) = GetNode ex_hash ex_ring ''b#1''"
proof -
  have n: "nodes ex_ring \<noteq> []" by (simp add: ex_ring_nodes)
  have one: "(1 :: int) \<le> 3" by simp
  have hdc: "hd (GetReplicas ex_hash ex_ring ''b#1'' 3) = GetNode ex_hash ex_ring ''b#1''"
    using C4_top_k_walk [OF ex_ring_built n one, of "''b#1''"] by blast
  have len: "length (GetReplicas ex_hash ex_ring ''b#1'' 3) < nat 3"
    by (simp add: ex_replicas)
  have crd: "card (owners ex_ring) < nat 3"
    by (simp add: ex_owners_card)
  show ?thesis
    by (intro conjI ex_ring_built n one ex_start ex_replicas len crd hdc)
qed

section \<open>Hash ring: colliding points\<close>

text \<open>
  Claim C9, as stated, fails: the ring keeps bare hash values and one owner per hash value,
  so of two points with the same hash the earlier one no longer resolves to the node that
  contributed it. In the example ring the point \<open>a#1\<close> and the point \<open>b#0\<close> collide, and
  every lookup that lands on either resolves to \<open>b\<close>.
\<close>

theorem C9_collision_counterexample:
  "uint (ex_hash (point_name ''a'' 1)) = uint (ex_hash (point_name ''b'' 0))
   \<and> nodes ex_ring = [180, 181, 181, 182]
   \<and> map (map_get (nodeMap ex_ring)) (nodes ex_ring) = [''a'', ''b'', ''b'', ''b'']
   \<and> GetNode ex_hash ex_ring (point_name ''a'' 1) = ''b''"
proof -
  have a: "uint (ex_hash (point_name ''a'' 1)) = uint (ex_hash (point_name ''b'' 0))"
    by (simp only: ex_points ex_hash_points)
  have "GetNode ex_hash ex_ring ''a#1'' = ''b''" by code_simp
  then have b: "GetNode ex_hash ex_ring (point_name ''a'' 1) = ''b''"
    by (simp only: ex_points)
  show ?thesis
    by (intro conjI a b ex_ring_nodes ex_ring_owners)
qed

text \<open>
  Claim C9, amended. \<open>AddNode\<close> keeps every hash value that was on the ring and adds the
  hash of each new point, in ascending order; equal hash values are kept side by side.
  Every hash value the added node produces resolves to the added node, every other hash
  value resolves as before. So when a new point collides with a point already on the
  ring, the value occurs at least twice and all its occurrences resolve to the node added
  later.
\<close>

theorem C9_colliding_points_resolve_to_later_node:
  "sorted (nodes (AddNode H h nodeID))
   \<and> mset (nodes (AddNode H h nodeID)) = mset (nodes h) + mset (point_hashes H h nodeID)
   \<and> (\<forall>x \<in> set (point_hashes H h nodeID). nodeMap (AddNode H h nodeID) x = Some nodeID)
   \<and> (\<forall>x. x \<notin> set (point_hashes H h nodeID) \<longrightarrow>
          nodeMap (AddNode H h nodeID) x = nodeMap h x)
   \<and> (x \<in> set (nodes h) \<and> x \<in> set (point_hashes H h nodeID) \<longrightarrow>
         2 \<le> count (mset (nodes (AddNode H h nodeID))) x
         \<and> map_get (nodeMap (AddNode H h nodeID)) x = nodeID)"
proof -
  have "x \<in> set (nodes h) \<and> x \<in> set (point_hashes H h nodeID) \<longrightarrow>
         2 \<le> count (mset (nodes h)) x + count (mset (point_hashes H h nodeID)) x"
  proof
    assume "x \<in> set (nodes h) \<and> x \<in> set (point_hashes H h nodeID)"
    then have "1 \<le> count (mset (nodes h)) x" "1 \<le> count (mset (point_hashes H h nodeID)) x"
      by (simp_all add: Suc_le_eq)
    then show "2 \<le> count (mset (nodes h)) x + count (mset (point_hashes H h nodeID)) x"
      by linarith
  qed
  then show ?thesis
    by (simp add: AddNode_nodes AddNode_nodeMap map_get_def)
qed

lemma ex_ring_a_nodes: "nodes (AddNode ex_hash (NewHashRing 2) ''a'') = [180, 181]"
  by code_simp

lemma ex_point_hashes_b: "point_hashes ex_hash (AddNode ex_hash (NewHashRing 2) ''a'') ''b'' = [181, 182]"
  by code_simp

theorem C9_colliding_points_resolve_to_later_node_witness:
  "181 \<in> set (nodes (AddNode ex_hash (NewHashRing 2) ''a''))
   \<and> 181 \<in> set (point_hashes ex_hash (AddNode ex_hash (NewHashRing 2) ''a'') ''b'')
   \<and> 2 \<le> count (mset (nodes ex_ring)) 181
   \<and> map_get (nodeMap ex_ring) 181 = ''b''
   \<and> nodeMap ex_ring 180 = nodeMap (AddNode ex_hash (NewHashRing 2) ''a'') 180"
proof -
  have a: "181 \<in> set (nodes (AddNode ex_hash (NewHashRing 2) ''a''))"
    by (simp add: ex_ring_a_nodes)
  have b: "181 \<in> set (point_hashes ex_hash (AddNode ex_hash (NewHashRing 2) ''a'') ''b'')"
    by (simp add: ex_point_hashes_b)
  have c: "180 \<notin> set (point_hashes ex_hash (AddNode ex_hash (NewHashRing 2) ''a'') ''b'')"
    by (simp add: ex_point_hashes_b)
  show ?thesis
    using C9_colliding_points_resolve_to_later_node
            [of ex_hash "AddNode ex_hash (NewHashRing 2) ''a''" "''b''" 181] a b c
    unfolding ex_ring_def by blast
qed

section \<open>The write handler\<close>

lemma scan_replicas_eq:
  "scan_replicas clust selfID rs isReplica hs =
     (isReplica \<or> selfID \<in> ID ` set rs, hs @ filter (\<lambda>node. treated_healthy clust (ID node)) rs)"
  by (induction rs arbitrary: isReplica hs) auto

lemma Key_assign_timestamp: "Key (assign_timestamp now1 req) = Key req"
  by (simp add: assign_timestamp_def)

lemma handleSet_unhealthy:
  assumes "Key req \<noteq> []"
    and "filter (\<lambda>node. treated_healthy clust (ID node)) (GetResponsibleNodes H clust (Key req) K) = []"
  shows "handleSet H clust selfID K cache now1 now2 (Decoded req) =
           \<lparr>status = StatusServiceUnavailable, message = ''no healthy replicas'',
            forwards = [], cache_after = cache\<rparr>"
  using assms by (simp add: handleSet_def Let_def scan_replicas_eq Key_assign_timestamp)

lemma handleSet_coordinator:
  assumes "Key req \<noteq> []"
    and "filter (\<lambda>node. treated_healthy clust (ID node)) (GetResponsibleNodes H clust (Key req) K) \<noteq> []"
    and "selfID \<notin> ID ` set (GetResponsibleNodes H clust (Key req) K)"
  shows "handleSet H clust selfID K cache now1 now2 (Decoded req) =
           \<lparr>status = StatusNoContent, message = [],
            forwards = map (\<lambda>node. (node, assign_timestamp now1 req))
                 (filter (\<lambda>node. ID node \<noteq> selfID)
                    (filter (\<lambda>node. treated_healthy clust (ID node))
                       (GetResponsibleNodes H clust (Key req) K))),
            cache_after = cache\<rparr>"
  using assms by (simp add: handleSet_def Let_def scan_replicas_eq Key_assign_timestamp)

lemma handleSet_replica:
  assumes "Key req \<noteq> []"
    and "filter (\<lambda>node. treated_healthy clust (ID node)) (GetResponsibleNodes H clust (Key req) K) \<noteq> []"
    and "selfID \<in> ID ` set (GetResponsibleNodes H clust (Key req) K)"
  shows "handleSet H clust selfID K cache now1 now2 (Decoded req) =
           (if fst (Cache_Set cache now2 (Key req) (Val (assign_timestamp now1 req))
                      (TTL (assign_timestamp now1 req)) (ReqLastUpdated (assign_timestamp now1 req)))
            then \<lparr>status = StatusNoContent, message = [], forwards = [],
                  cache_after = snd (Cache_Set cache now2 (Key req) (Val (assign_timestamp now1 req))
                      (TTL (assign_timestamp now1 req)) (ReqLastUpdated (assign_timestamp now1 req)))\<rparr>
            else \<lparr>status = StatusConflict,
                  message = ''conflict: incoming update is older than current value'',
                  forwards = [],
                  cache_after = snd (Cache_Set cache now2 (Key req) (Val (assign_timestamp now1 req))
                      (TTL (assign_timestamp now1 req)) (ReqLastUpdated (assign_timestamp now1 req)))\<rparr>)"
  using assms
  by (simp add: handleSet_def Let_def scan_replicas_eq Key_assign_timestamp split: prod.splits)


lemma assign_timestamp_idem:
  "assign_timestamp now1 (assign_timestamp now1 req) = assign_timestamp now1 req"
  by (simp add: assign_timestamp_def)

lemma Cache_Set_nonpositive_ttl:
  "ttl \<le> 0 \<Longrightarrow> Cache_Set c now key v ttl ts = Cache_Set c now key v 0 ts"
  by (simp add: Cache_Set_def expiration_of_def)

lemma Cache_Set_outcome:
  "snd (Cache_Set c now key v ttl ts) = c
   \<or> snd (Cache_Set c now key v ttl ts)
        = c(key \<mapsto> \<lparr>Value = v, Expiration = expiration_of now ttl, LastUpdated = ts\<rparr>)"
  by (cases "c key") (auto simp: Cache_Set_def)

lemma IsNodeHealthy_iff: "IsNodeHealthy tracker nodeID \<longleftrightarrow> tracker nodeID = Some True"
  by (cases "tracker nodeID") (auto simp: IsNodeHealthy_def)

lemma treated_healthy_iff:
  "treated_healthy clust nodeID \<longleftrightarrow>
     Health clust = None \<or> (\<exists>tracker. Health clust = Some tracker \<and> tracker nodeID = Some True)"
  by (cases "Health clust") (auto simp: treated_healthy_def IsNodeHealthy_iff)

text \<open>
  Claim C8. The replica filter of the handlers treats a node as healthy exactly when the
  cluster has no health tracker or the tracker's map holds \<open>true\<close> for the node; the
  healthy replicas are the replicas that pass this test, in ring order; a node missing
  from the tracker's map is treated as unhealthy.
\<close>

theorem C8_healthy_iff_no_tracker_or_marked_true:
  "(treated_healthy clust nodeID \<longleftrightarrow>
      Health clust = None \<or> (\<exists>tracker. Health clust = Some tracker \<and> tracker nodeID = Some True))
   \<and> snd (scan_replicas clust selfID rs False []) =
        filter (\<lambda>node. Health clust = None
                  \<or> (\<exists>tracker. Health clust = Some tracker \<and> tracker (ID node) = Some True)) rs
   \<and> (Health clust = Some tr \<and> tr nodeID = None \<longrightarrow> \<not> treated_healthy clust nodeID)
   \<and> (IsNodeHealthy tr nodeID \<longleftrightarrow> tr nodeID = Some True)"
proof -
  have "filter (\<lambda>node. treated_healthy clust (ID node)) rs =
        filter (\<lambda>node. Health clust = None
                  \<or> (\<exists>tracker. Health clust = Some tracker \<and> tracker (ID node) = Some True)) rs"
    by (rule filter_cong) (simp_all add: treated_healthy_iff)
  then show ?thesis
    using treated_healthy_iff [of clust nodeID]
    by (auto simp: scan_replicas_eq IsNodeHealthy_iff)
qed

lemma ex_tracker_lookups:
  "ex_tracker ''a'' = Some True" "ex_tracker ''b'' = Some True" "ex_tracker ''d'' = None"
  by (simp_all add: ex_tracker_def MarkNodeHealth_def NewNodeHealthTracker_def)

lemma ex_cluster_Health: "Health ex_cluster = Some ex_tracker"
  by (simp add: ex_cluster_def)

lemma ex_single_Health: "Health ex_single = None"
  by (simp add: ex_single_def NewCluster_def split: prod.splits)

theorem C8_healthy_iff_no_tracker_or_marked_true_witness:
  "Health ex_cluster = Some ex_tracker \<and> ex_tracker ''d'' = None
   \<and> \<not> treated_healthy ex_cluster ''d''
   \<and> treated_healthy ex_cluster ''b''
   \<and> Health ex_single = None \<and> treated_healthy ex_single ''d''"
  using C8_healthy_iff_no_tracker_or_marked_true [of ex_cluster "''d''" "''a''" "[]" ex_tracker]
        C8_healthy_iff_no_tracker_or_marked_true [of ex_cluster "''b''" "''a''" "[]" ex_tracker]
        C8_healthy_iff_no_tracker_or_marked_true [of ex_single "''d''" "''a''" "[]" ex_tracker]
  by (simp add: ex_tracker_lookups ex_cluster_Health ex_single_Health)

subsection \<open>The three outcomes of a well-formed write\<close>

lemma handleSet_shape:
  assumes "Key req \<noteq> []"
  shows "handleSet H clust selfID K cache now1 now2 (Decoded req) =
     (if filter (\<lambda>node. treated_healthy clust (ID node)) (GetResponsibleNodes H clust (Key req) K) = []
      then \<lparr>status = StatusServiceUnavailable, message = ''no healthy replicas'',
            forwards = [], cache_after = cache\<rparr>
      else if selfID \<notin> ID ` set (GetResponsibleNodes H clust (Key req) K)
      then \<lparr>status = StatusNoContent, message = [],
            forwards = map (\<lambda>node. (node, assign_timestamp now1 req))
                 (filter (\<lambda>node. ID node \<noteq> selfID)
                    (filter (\<lambda>node. treated_healthy clust (ID node))
                       (GetResponsibleNodes H clust (Key req) K))),
            cache_after = cache\<rparr>
      else \<lparr>status = (if fst (Cache_Set cache now2 (Key req) (Val (assign_timestamp now1 req))
                      (TTL (assign_timestamp now1 req)) (ReqLastUpdated (assign_timestamp now1 req)))
                      then StatusNoContent else StatusConflict),
            message = (if fst (Cache_Set cache now2 (Key req) (Val (assign_timestamp now1 req))
                      (TTL (assign_timestamp now1 req)) (ReqLastUpdated (assign_timestamp now1 req)))
                      then [] else ''conflict: incoming update is older than current value''),
            forwards = [],
            cache_after = snd (Cache_Set cache now2 (Key req) (Val (assign_timestamp now1 req))
                      (TTL (assign_timestamp now1 req)) (ReqLastUpdated (assign_timestamp now1 req)))\<rparr>)"
  using handleSet_unhealthy [OF assms, of clust H K selfID cache now1 now2]
        handleSet_coordinator [OF assms, of clust H K selfID cache now1 now2]
        handleSet_replica [OF assms, of clust H K selfID cache now1 now2]
  by (simp split: if_splits)

lemma assign_timestamp_fields:
  "Val (assign_timestamp now1 req) = Val req" "TTL (assign_timestamp now1 req) = TTL req"
  by (simp_all add: assign_timestamp_def)

lemma assign_timestamp_TTL_update:
  "assign_timestamp now1 (req\<lparr>TTL := t\<rparr>) = (assign_timestamp now1 req)\<lparr>TTL := t\<rparr>"
  by (simp add: assign_timestamp_def)

lemma ex_single_negative_ttl:
  "status (handleSet ex_hash ex_single ''a'' 2 Map.empty 0 0 (Decoded (ex_req\<lparr>TTL := - 1\<rparr>)))
     = StatusNoContent"
  "cache_after (handleSet ex_hash ex_single ''a'' 2 Map.empty 0 0 (Decoded (ex_req\<lparr>TTL := - 1\<rparr>))) ''k''
     = Some \<lparr>Value = ''v'', Expiration = 0, LastUpdated = 5\<rparr>"
  by code_simp+

text \<open>
  Claim C7, as stated, fails: a write with \<open>ttl = -1\<close> on a single-node cluster is
  answered 204 and the entry is stored, without expiration.
\<close>

theorem C7_negative_ttl_counterexample:
  "TTL (ex_req\<lparr>TTL := - 1\<rparr>) < 0
   \<and> status (handleSet ex_hash ex_single ''a'' 2 Map.empty 0 0 (Decoded (ex_req\<lparr>TTL := - 1\<rparr>)))
       = StatusNoContent
   \<and> cache_after (handleSet ex_hash ex_single ''a'' 2 Map.empty 0 0 (Decoded (ex_req\<lparr>TTL := - 1\<rparr>))) ''k''
       = Some \<lparr>Value = ''v'', Expiration = 0, LastUpdated = 5\<rparr>"
proof -
  have "TTL (ex_req\<lparr>TTL := - 1\<rparr>) < 0" by simp
  then show ?thesis
    by (intro conjI ex_single_negative_ttl)
qed

text \<open>
  Claim C7, amended. A write with a negative TTL and a non-empty key is never answered as a
  bad request: the handler answers it, changes the local store and picks the nodes it
  forwards to exactly as for the same request with TTL 0.
\<close>

theorem C7_negative_ttl_handled_as_no_ttl:
  assumes "TTL req < 0" "Key req \<noteq> []"
  shows "status (handleSet H clust selfID K cache now1 now2 (Decoded req)) \<noteq> StatusBadRequest
    \<and> status (handleSet H clust selfID K cache now1 now2 (Decoded req))
        = status (handleSet H clust selfID K cache now1 now2 (Decoded (req\<lparr>TTL := 0\<rparr>)))
    \<and> cache_after (handleSet H clust selfID K cache now1 now2 (Decoded req))
        = cache_after (handleSet H clust selfID K cache now1 now2 (Decoded (req\<lparr>TTL := 0\<rparr>)))
    \<and> map fst (forwards (handleSet H clust selfID K cache now1 now2 (Decoded req)))
        = map fst (forwards (handleSet H clust selfID K cache now1 now2 (Decoded (req\<lparr>TTL := 0\<rparr>))))"
proof -
  have k0: "Key (req\<lparr>TTL := 0\<rparr>) \<noteq> []" using assms(2) by simp
  have set_eq: "Cache_Set cache now2 (Key req) (Val req) (TTL req)
                  (ReqLastUpdated (assign_timestamp now1 req))
      = Cache_Set cache now2 (Key req) (Val req) 0 (ReqLastUpdated (assign_timestamp now1 req))"
    using assms(1) by (intro Cache_Set_nonpositive_ttl) simp
  show ?thesis
    unfolding handleSet_shape [OF assms(2)] handleSet_shape [OF k0]
    by (simp add: assign_timestamp_fields assign_timestamp_TTL_update set_eq comp_def)
qed

theorem C7_negative_ttl_handled_as_no_ttl_witness:
  "TTL (ex_req\<lparr>TTL := - 1\<rparr>) < 0 \<and> Key (ex_req\<lparr>TTL := - 1\<rparr>) \<noteq> []
   \<and> status (handleSet ex_hash ex_single ''a'' 2 Map.empty 0 0 (Decoded (ex_req\<lparr>TTL := - 1\<rparr>)))
       \<noteq> StatusBadRequest
   \<and> cache_after (handleSet ex_hash ex_single ''a'' 2 Map.empty 0 0 (Decoded (ex_req\<lparr>TTL := - 1\<rparr>)))
       = cache_after (handleSet ex_hash ex_single ''a'' 2 Map.empty 0 0
                        (Decoded (ex_req\<lparr>TTL := - 1, TTL := 0\<rparr>)))"
proof -
  have a: "TTL (ex_req\<lparr>TTL := - 1\<rparr>) < 0" by simp
  have b: "Key (ex_req\<lparr>TTL := - 1\<rparr>) \<noteq> []" by (simp add: ex_req_def)
  show ?thesis
    using C7_negative_ttl_handled_as_no_ttl
            [OF a b, of ex_hash ex_single "''a''" 2 Map.empty 0 0] a b
    by blast
qed

text \<open>
  What the handler does with the timestamp of a request, at any clock: a request with
  \<open>last_updated = 0\<close> is handled as the same request carrying the wall-clock
  milliseconds; every forwarded request carries the assigned timestamp; the local store
  is unchanged or holds the entry with the assigned timestamp; and the assigned timestamp
  is 0 exactly when the request's is 0 and the clock reads 0 ms.
\<close>

lemma assigned_timestamp_facts:
  "(ReqLastUpdated req = 0 \<longrightarrow>
      handleSet H clust selfID K cache now1 now2 (Decoded req)
        = handleSet H clust selfID K cache now1 now2
            (Decoded (req\<lparr>ReqLastUpdated := go_div (UnixNano now1) Millisecond\<rparr>)))
   \<and> (\<forall>fw \<in> set (forwards (handleSet H clust selfID K cache now1 now2 (Decoded req))).
         snd fw = assign_timestamp now1 req)
   \<and> (cache_after (handleSet H clust selfID K cache now1 now2 (Decoded req)) = cache
       \<or> cache_after (handleSet H clust selfID K cache now1 now2 (Decoded req))
           = cache(Key req \<mapsto> \<lparr>Value = Val req, Expiration = expiration_of now2 (TTL req),
                                LastUpdated = ReqLastUpdated (assign_timestamp now1 req)\<rparr>))
   \<and> (ReqLastUpdated (assign_timestamp now1 req) = 0
        \<longleftrightarrow> ReqLastUpdated req = 0 \<and> go_div (UnixNano now1) Millisecond = 0)"
proof (intro conjI)
  show "ReqLastUpdated req = 0 \<longrightarrow>
      handleSet H clust selfID K cache now1 now2 (Decoded req)
        = handleSet H clust selfID K cache now1 now2
            (Decoded (req\<lparr>ReqLastUpdated := go_div (UnixNano now1) Millisecond\<rparr>))"
  proof
    assume z: "ReqLastUpdated req = 0"
    have "assign_timestamp now1 (req\<lparr>ReqLastUpdated := go_div (UnixNano now1) Millisecond\<rparr>)
            = assign_timestamp now1 req"
      using z by (simp add: assign_timestamp_def)
    then show "handleSet H clust selfID K cache now1 now2 (Decoded req)
        = handleSet H clust selfID K cache now1 now2
            (Decoded (req\<lparr>ReqLastUpdated := go_div (UnixNano now1) Millisecond\<rparr>))"
      by (simp add: handleSet_def)
  qed
  show "\<forall>fw \<in> set (forwards (handleSet H clust selfID K cache now1 now2 (Decoded req))).
         snd fw = assign_timestamp now1 req"
  proof (cases "Key req = []")
    case True
    then show ?thesis by (simp add: handleSet_def)
  next
    case False
    show ?thesis unfolding handleSet_shape [OF False] by auto
  qed
  show "cache_after (handleSet H clust selfID K cache now1 now2 (Decoded req)) = cache
       \<or> cache_after (handleSet H clust selfID K cache now1 now2 (Decoded req))
           = cache(Key req \<mapsto> \<lparr>Value = Val req, Expiration = expiration_of now2 (TTL req),
                                LastUpdated = ReqLastUpdated (assign_timestamp now1 req)\<rparr>)"
  proof (cases "Key req = []")
    case True
    then show ?thesis by (simp add: handleSet_def)
  next
    case False
    show ?thesis
      unfolding handleSet_shape [OF False]
      using Cache_Set_outcome [of cache now2 "Key req" "Val req" "TTL req"
              "ReqLastUpdated (assign_timestamp now1 req)"]
      by (auto simp: assign_timestamp_fields)
  qed
  show "ReqLastUpdated (assign_timestamp now1 req) = 0
        \<longleftrightarrow> ReqLastUpdated req = 0 \<and> go_div (UnixNano now1) Millisecond = 0"
    by (simp add: assign_timestamp_def)
qed

lemma ex_stamp: "go_div (UnixNano 1700000000123456789) Millisecond = 1700000000123"
  by (simp add: go_div_def UnixNano_def Millisecond_def)

lemma ex_single_stamped:
  "cache_after (handleSet ex_hash ex_single ''a'' 2 Map.empty 1700000000123456789 0
             (Decoded (ex_req\<lparr>ReqLastUpdated := 1700000000123\<rparr>))) ''k''
     = Some \<lparr>Value = ''v'', Expiration = 0, LastUpdated = 1700000000123\<rparr>"
  by code_simp

text \<open>
  Claim C10. While the wall clock of the coordinator does not read 0 ms (it is not within
  a millisecond of the Unix epoch), a write request whose body supplies \<open>last_updated = 0\<close>
  is handled as the same request carrying the coordinator's current wall-clock
  milliseconds, both when it is applied and when it is forwarded; every forwarded request
  carries a non-zero timestamp, and every entry the handler puts into the store has a
  non-zero timestamp, whatever the client supplied.
\<close>

theorem C10_zero_timestamp_replaced_by_clock:
  assumes "go_div (UnixNano now1) Millisecond \<noteq> 0"
  shows "(ReqLastUpdated req = 0 \<longrightarrow>
      ReqLastUpdated (assign_timestamp now1 req) = go_div (UnixNano now1) Millisecond
      \<and> handleSet H clust selfID K cache now1 now2 (Decoded req)
          = handleSet H clust selfID K cache now1 now2
              (Decoded (req\<lparr>ReqLastUpdated := go_div (UnixNano now1) Millisecond\<rparr>)))
   \<and> (\<forall>fw \<in> set (forwards (handleSet H clust selfID K cache now1 now2 (Decoded req))).
         snd fw = assign_timestamp now1 req \<and> ReqLastUpdated (snd fw) \<noteq> 0)
   \<and> (\<forall>k e. cache_after (handleSet H clust selfID K cache now1 now2 (Decoded req)) k = Some e
              \<and> cache k \<noteq> Some e \<longrightarrow>
          k = Key req \<and> LastUpdated e = ReqLastUpdated (assign_timestamp now1 req)
          \<and> LastUpdated e \<noteq> 0)"
proof -
  note facts = assigned_timestamp_facts [of req H clust selfID K cache now1 now2]
  have nz: "ReqLastUpdated (assign_timestamp now1 req) \<noteq> 0"
    using facts assms by blast
  have stamp: "ReqLastUpdated req = 0 \<longrightarrow>
      ReqLastUpdated (assign_timestamp now1 req) = go_div (UnixNano now1) Millisecond"
    by (simp add: assign_timestamp_def)
  have same: "ReqLastUpdated req = 0 \<longrightarrow>
      handleSet H clust selfID K cache now1 now2 (Decoded req)
          = handleSet H clust selfID K cache now1 now2
              (Decoded (req\<lparr>ReqLastUpdated := go_div (UnixNano now1) Millisecond\<rparr>))"
    using facts by blast
  have fw: "\<forall>fw \<in> set (forwards (handleSet H clust selfID K cache now1 now2 (Decoded req))).
         snd fw = assign_timestamp now1 req \<and> ReqLastUpdated (snd fw) \<noteq> 0"
    using facts nz by auto
  have stored: "\<forall>k e. cache_after (handleSet H clust selfID K cache now1 now2 (Decoded req)) k = Some e
              \<and> cache k \<noteq> Some e \<longrightarrow>
          k = Key req \<and> LastUpdated e = ReqLastUpdated (assign_timestamp now1 req)
          \<and> LastUpdated e \<noteq> 0"
  proof (intro allI impI)
    fix k e
    assume a: "cache_after (handleSet H clust selfID K cache now1 now2 (Decoded req)) k = Some e
              \<and> cache k \<noteq> Some e"
    then have neq: "cache_after (handleSet H clust selfID K cache now1 now2 (Decoded req)) \<noteq> cache"
      by auto
    then have upd: "cache_after (handleSet H clust selfID K cache now1 now2 (Decoded req))
           = cache(Key req \<mapsto> \<lparr>Value = Val req, Expiration = expiration_of now2 (TTL req),
                                LastUpdated = ReqLastUpdated (assign_timestamp now1 req)\<rparr>)"
      using facts by blast
    have k: "k = Key req"
    proof (rule ccontr)
      assume "k \<noteq> Key req"
      then show False using a by (simp add: upd)
    qed
    then have "e = \<lparr>Value = Val req, Expiration = expiration_of now2 (TTL req),
                    LastUpdated = ReqLastUpdated (assign_timestamp now1 req)\<rparr>"
      using a by (simp add: upd)
    then show "k = Key req \<and> LastUpdated e = ReqLastUpdated (assign_timestamp now1 req)
          \<and> LastUpdated e \<noteq> 0"
      using k nz by simp
  qed
  show ?thesis
    using stamp same fw stored by blast
qed

theorem C10_zero_timestamp_replaced_by_clock_witness:
  "go_div (UnixNano 1700000000123456789) Millisecond \<noteq> 0
   \<and> ReqLastUpdated (ex_req\<lparr>ReqLastUpdated := 0\<rparr>) = 0
   \<and> ReqLastUpdated (assign_timestamp 1700000000123456789 (ex_req\<lparr>ReqLastUpdated := 0\<rparr>))
       = 1700000000123
   \<and> cache_after (handleSet ex_hash ex_single ''a'' 2 Map.empty 1700000000123456789 0
             (Decoded (ex_req\<lparr>ReqLastUpdated := 0\<rparr>))) ''k''
       = Some \<lparr>Value = ''v'', Expiration = 0, LastUpdated = 1700000000123\<rparr>
   \<and> LastUpdated \<lparr>Value = ''v'', Expiration = 0, LastUpdated = 1700000000123 :: int\<rparr> \<noteq> 0"
proof -
  have nz: "go_div (UnixNano 1700000000123456789) Millisecond \<noteq> 0" by (simp add: ex_stamp)
  have z: "ReqLastUpdated (ex_req\<lparr>ReqLastUpdated := 0\<rparr>) = 0" by simp
  note t = C10_zero_timestamp_replaced_by_clock
             [OF nz, of "ex_req\<lparr>ReqLastUpdated := 0\<rparr>" ex_hash ex_single "''a''" 2 Map.empty 0]
  have s: "ReqLastUpdated (assign_timestamp 1700000000123456789 (ex_req\<lparr>ReqLastUpdated := 0\<rparr>))
       = 1700000000123"
    using t z by (simp add: ex_stamp)
  have "handleSet ex_hash ex_single ''a'' 2 Map.empty 1700000000123456789 0
             (Decoded (ex_req\<lparr>ReqLastUpdated := 0\<rparr>))
        = handleSet ex_hash ex_single ''a'' 2 Map.empty 1700000000123456789 0
             (Decoded (ex_req\<lparr>ReqLastUpdated := 1700000000123\<rparr>))"
    using t z by (simp add: ex_stamp)
  then have c: "cache_after (handleSet ex_hash ex_single ''a'' 2 Map.empty 1700000000123456789 0
             (Decoded (ex_req\<lparr>ReqLastUpdated := 0\<rparr>))) ''k''
       = Some \<lparr>Value = ''v'', Expiration = 0, LastUpdated = 1700000000123\<rparr>"
    by (simp add: ex_single_stamped)
  have d: "LastUpdated \<lparr>Value = ''v'', Expiration = 0, LastUpdated = 1700000000123 :: int\<rparr> \<noteq> 0"
    by simp
  show ?thesis by (intro conjI nz z s c d)
qed

lemma ex_cluster_replicas: "map ID (GetResponsibleNodes ex_hash ex_cluster ''k'' 2) = [''a'', ''b'']"
  by code_simp

lemma ex_cluster_b_healthy: "treated_healthy ex_cluster ''b''"
  by (simp add: treated_healthy_def ex_cluster_Health IsNodeHealthy_iff ex_tracker_lookups)

lemma ex_cluster_replica_write:
  "status (handleSet ex_hash ex_cluster ''a'' 2 Map.empty 0 0 (Decoded ex_req)) = StatusNoContent"
  "forwards (handleSet ex_hash ex_cluster ''a'' 2 Map.empty 0 0 (Decoded ex_req)) = []"
  "cache_after (handleSet ex_hash ex_cluster ''a'' 2 Map.empty 0 0 (Decoded ex_req)) ''k''
     = Some \<lparr>Value = ''v'', Expiration = 0, LastUpdated = 5\<rparr>"
  by code_simp+

lemma ex_cluster_coordinator_write:
  "map (ID \<circ> fst) (forwards (handleSet ex_hash ex_cluster ''c'' 2 Map.empty 0 0 (Decoded ex_req)))
     = [''a'', ''b'']"
  by code_simp

text \<open>
  Claim C1 at a write received by a replica: in the three-node cluster with two replicas
  per key, the key \<open>k\<close> belongs to \<open>a\<close> and \<open>b\<close>, both healthy. Node \<open>a\<close> stores the write and
  answers 204, but forwards it to nobody, so \<open>b\<close> never receives it; the same write
  received by \<open>c\<close>, which is no replica of \<open>k\<close>, is forwarded to \<open>a\<close> and \<open>b\<close>.
\<close>

theorem C1_replica_stores_without_fanout:
  "map ID (GetResponsibleNodes ex_hash ex_cluster ''k'' 2) = [''a'', ''b'']
   \<and> treated_healthy ex_cluster ''b''
   \<and> status (handleSet ex_hash ex_cluster ''a'' 2 Map.empty 0 0 (Decoded ex_req)) = StatusNoContent
   \<and> cache_after (handleSet ex_hash ex_cluster ''a'' 2 Map.empty 0 0 (Decoded ex_req)) ''k''
       = Some \<lparr>Value = ''v'', Expiration = 0, LastUpdated = 5\<rparr>
   \<and> forwards (handleSet ex_hash ex_cluster ''a'' 2 Map.empty 0 0 (Decoded ex_req)) = []
   \<and> map (ID \<circ> fst) (forwards (handleSet ex_hash ex_cluster ''c'' 2 Map.empty 0 0 (Decoded ex_req)))
       = [''a'', ''b'']"
  by (intro conjI ex_cluster_replicas ex_cluster_b_healthy ex_cluster_replica_write
        ex_cluster_coordinator_write)

end
